theory Spec2Isabelle
  imports Main "HOL-Library.Word"
begin

unbundle bit_operations_syntax

section \<open>Machine types of the target (32-bit ARM, little-endian)\<close>

type_synonym u8 = "8 word"
type_synonym u16 = "16 word"
type_synonym u32 = "32 word"

section \<open>The flash controller\<close>

text \<open>
  The driver is compiled for one of two device families; every \<^verbatim>\<open>#if defined(__SAMD51__)\<close>
  of the source is a case distinction on this value.
\<close>

datatype device = SAMD21 | SAMD51

text \<open>
  The commands the driver issues through the control register: page buffer clear, write
  page, and erase row (\<^verbatim>\<open>ER\<close> on SAMD21, erase block \<^verbatim>\<open>EB\<close> on SAMD51) together
  with the byte address the driver selected through the address register.
\<close>

datatype command = CMD_PBC | CMD_WP | CMD_ER u32

text \<open>
  Modelled from the spec: the memory controller \<^verbatim>\<open>NVMCTRL\<close> is hardware, declared in the
  device headers and not part of the repository. The record is the simulated in-memory
  controller of the design notes: the two fields of the \<^verbatim>\<open>PARAM\<close> register the driver
  reads (with their bit widths), the bytes of the address space, the page write buffer
  (the bytes latched since the last page buffer clear, by address), and the sequence of
  commands issued so far. A controller that is not wedged sets its ready and done flags
  after every command, so each busy-wait loop of the source returns; cache invalidation
  and memory barriers do not change what this memory holds.
\<close>

record nvmctrl =
  variant :: device
  PSZ :: "3 word"
  NVMP :: "16 word"
  mem :: "u32 \<Rightarrow> u8"
  page_buffer :: "u32 \<Rightarrow> u8 option"
  commands :: "command list"

text \<open>Modelled from the spec: page buffer clear empties the page write buffer.\<close>

definition hw_page_buffer_clear :: "nvmctrl \<Rightarrow> nvmctrl" where
  "hw_page_buffer_clear hw =
     hw\<lparr>page_buffer := (\<lambda>a. None), commands := commands hw @ [CMD_PBC]\<rparr>"

text \<open>
  Modelled from the spec: a 32-bit store into the flash address space latches its four
  bytes in the page write buffer; flash itself is unchanged until the page is committed.
\<close>

definition hw_store32 :: "u32 \<Rightarrow> u8 \<times> u8 \<times> u8 \<times> u8 \<Rightarrow> nvmctrl \<Rightarrow> nvmctrl" where
  "hw_store32 dst w hw =
     (case w of (b0, b1, b2, b3) \<Rightarrow>
        hw\<lparr>page_buffer := (page_buffer hw)
             (dst \<mapsto> b0, dst + 1 \<mapsto> b1, dst + 2 \<mapsto> b2, dst + 3 \<mapsto> b3)\<rparr>)"

text \<open>
  Modelled from the spec: the page-write command programs the latched bytes. Programming
  only clears bits (the destination must be erased, all-ones, for bits being set), so
  each programmed byte is the conjunction of the old byte and the latched one.
\<close>

definition hw_write_page :: "nvmctrl \<Rightarrow> nvmctrl" where
  "hw_write_page hw =
     hw\<lparr>mem := (\<lambda>a. case page_buffer hw a of None \<Rightarrow> mem hw a | Some b \<Rightarrow> mem hw a AND b),
        commands := commands hw @ [CMD_WP]\<rparr>"

text \<open>
  Modelled from the spec: the row-erase command sets every byte of the row that starts at
  the selected address to all-ones; the row is the erase granularity the driver derived.
\<close>

definition hw_erase_row :: "u32 \<Rightarrow> u32 \<Rightarrow> nvmctrl \<Rightarrow> nvmctrl" where
  "hw_erase_row row_size addr hw =
     hw\<lparr>mem := (\<lambda>a. if a - addr < row_size then 0xFF else mem hw a),
        commands := commands hw @ [CMD_ER addr]\<rparr>"

section \<open>FlashClass: the raw flash driver\<close>

definition pageSizes :: "u32 list" where
  "pageSizes = [8, 16, 32, 64, 128, 256, 512, 1024]"

record FlashClass =
  PAGE_SIZE :: u32
  ROW_SIZE :: u32
  flash_address :: u32
  flash_size :: u32

text \<open>The constructor: page and row size are read from the controller's \<^verbatim>\<open>PARAM\<close> register.\<close>

definition FlashClass_ctor :: "nvmctrl \<Rightarrow> u32 \<Rightarrow> u32 \<Rightarrow> FlashClass" where
  "FlashClass_ctor hw flash_addr sz =
     (let page_size = pageSizes ! unat (PSZ hw) in
      \<lparr>PAGE_SIZE = page_size,
       ROW_SIZE = (case variant hw of
                     SAMD51 \<Rightarrow> (page_size * ucast (NVMP hw)) div 64
                   | SAMD21 \<Rightarrow> page_size * 4),
       flash_address = flash_addr,
       flash_size = sz\<rparr>)"

text \<open>
  \<^verbatim>\<open>read_unaligned_uint32\<close>: the four bytes at \<^verbatim>\<open>data\<close>, assembled through a union. The
  store of the result writes the same four bytes back in the same order, so the word is
  kept as its memory image. The caller's memory is seen from the pointer: \<open>data i\<close> is the
  byte at \<^verbatim>\<open>data + i\<close>.
\<close>

definition read_unaligned_uint32 :: "(nat \<Rightarrow> u8) \<Rightarrow> nat \<Rightarrow> u8 \<times> u8 \<times> u8 \<times> u8" where
  "read_unaligned_uint32 data off = (data off, data (off + 1), data (off + 2), data (off + 3))"

definition isWithinBounds :: "FlashClass \<Rightarrow> u32 \<Rightarrow> u32 \<Rightarrow> bool" where
  "isWithinBounds fc flash_ptr sz =
     (if flash_size fc = 0 \<or> flash_address fc = 0 then True
      else
        let op_start = flash_ptr in
        if op_start > 0xFFFFFFFF - sz then False
        else
          let op_end = op_start + sz;
              bound_start = flash_address fc;
              bound_end = bound_start + flash_size fc
          in op_start \<ge> bound_start \<and> op_end \<le> bound_end)"

text \<open>
  \<^verbatim>\<open>read(flash_ptr, data, size)\<close>: \<open>None\<close> when the call returns false and leaves the
  destination untouched, \<open>Some bs\<close> when it returns true and the destination holds \<open>bs\<close>.
\<close>

definition FlashClass_read :: "FlashClass \<Rightarrow> u32 \<Rightarrow> u32 \<Rightarrow> nvmctrl \<Rightarrow> u8 list option" where
  "FlashClass_read fc flash_ptr sz hw =
     (if \<not> isWithinBounds fc flash_ptr sz then None
      else Some (map (\<lambda>i. mem hw (flash_ptr + of_nat i)) [0..<unat sz]))"

text \<open>
  The inner loop of \<^verbatim>\<open>write\<close>: fills the page buffer with up to \<^verbatim>\<open>PAGE_SIZE/4\<close> words.
  It returns the advanced source offset, destination pointer and remaining word count.
\<close>

function fill_page_buffer ::
  "u32 \<Rightarrow> u32 \<Rightarrow> (nat \<Rightarrow> u8) \<Rightarrow> nat \<Rightarrow> u32 \<Rightarrow> u32 \<Rightarrow> nvmctrl \<Rightarrow> nat \<times> u32 \<times> u32 \<times> nvmctrl" where
  "fill_page_buffer i lim data src_addr dst_addr sz hw =
     (if i < lim \<and> sz \<noteq> 0
      then fill_page_buffer (i + 1) lim data (src_addr + 4) (dst_addr + 4) (sz - 1)
             (hw_store32 dst_addr (read_unaligned_uint32 data src_addr) hw)
      else (src_addr, dst_addr, sz, hw))"
  by pat_completeness auto
termination
  by (relation "measure (\<lambda>(i, lim, data, src_addr, dst_addr, sz, hw). unat sz)")
     (auto simp: unat_minus_one unat_gt_0)

declare fill_page_buffer.simps [simp del]

text \<open>
  The outer loop of \<^verbatim>\<open>write\<close>: one page per iteration, for the page size of the region.
  The loop does not end when \<^verbatim>\<open>PAGE_SIZE/4\<close> is zero and words remain; \<open>None\<close> is that
  the call never returns.
\<close>

partial_function (option) write_pages ::
  "u32 \<Rightarrow> (nat \<Rightarrow> u8) \<Rightarrow> nat \<Rightarrow> u32 \<Rightarrow> u32 \<Rightarrow> nvmctrl \<Rightarrow> nvmctrl option" where
  "write_pages page_size data src_addr dst_addr sz hw =
     (if sz = 0 then Some hw
      else
        (case fill_page_buffer 0 (page_size div 4) data src_addr dst_addr sz
                (hw_page_buffer_clear hw) of
           (src_addr', dst_addr', sz', hw') \<Rightarrow>
             write_pages page_size data src_addr' dst_addr' sz' (hw_write_page hw')))"

text \<open>
  \<^verbatim>\<open>write(flash_ptr, data, size)\<close>. The results of the commands that change the controller
  are \<open>None\<close> when the call does not return, and \<open>Some (r, hw')\<close> when it returns \<open>r\<close>
  and leaves the controller in \<open>hw'\<close>. The write-mode bits (\<^verbatim>\<open>MANW\<close>, \<^verbatim>\<open>WMODE\<close>), the saved
  and restored \<^verbatim>\<open>CACHEDIS\<close> bits, the cache invalidation and the barriers of the source
  are writes to registers that the simulated controller does not have; the word count
  \<^verbatim>\<open>(size + 3) / 4\<close> is computed in 32 bits, as in the source.
\<close>

definition FlashClass_write ::
  "FlashClass \<Rightarrow> u32 \<Rightarrow> (nat \<Rightarrow> u8) \<Rightarrow> u32 \<Rightarrow> nvmctrl \<Rightarrow> (bool \<times> nvmctrl) option" where
  "FlashClass_write fc flash_ptr data sz hw =
     (if \<not> isWithinBounds fc flash_ptr sz then Some (False, hw)
      else
        (case write_pages (PAGE_SIZE fc) data 0 flash_ptr ((sz + 3) div 4) hw of
           None \<Rightarrow> None
         | Some hw' \<Rightarrow> Some (True, hw')))"

text \<open>
  The private \<^verbatim>\<open>erase(flash_ptr)\<close>: one row. The remainder by a row size of zero is a
  division by zero, after which the call has no result. The address register takes
  \<^verbatim>\<open>flash_ptr\<close> (halved on SAMD21, where it counts 16-bit words); the command is logged with
  the byte address.
\<close>

definition FlashClass_erase_row :: "FlashClass \<Rightarrow> u32 \<Rightarrow> nvmctrl \<Rightarrow> (bool \<times> nvmctrl) option" where
  "FlashClass_erase_row fc flash_ptr hw =
     (let addr = flash_ptr in
      if ROW_SIZE fc = 0 then None
      else if addr mod ROW_SIZE fc \<noteq> 0 then Some (False, hw)
      else
        let flash_size_bytes =
              (case variant hw of
                 SAMD51 \<Rightarrow> ucast (NVMP hw) * PAGE_SIZE fc * 64
               | SAMD21 \<Rightarrow> ucast (NVMP hw) * PAGE_SIZE fc)
        in if addr \<ge> flash_size_bytes then Some (False, hw)
           else Some (True, hw_erase_row (ROW_SIZE fc) flash_ptr hw))"

text \<open>The loop of \<^verbatim>\<open>erase(flash_ptr, size)\<close> and the erase of the trailing row.\<close>

function erase_rows :: "FlashClass \<Rightarrow> u32 \<Rightarrow> u32 \<Rightarrow> nvmctrl \<Rightarrow> (bool \<times> nvmctrl) option" where
  "erase_rows fc ptr sz hw =
     (if sz > ROW_SIZE fc then
        (case FlashClass_erase_row fc ptr hw of
           None \<Rightarrow> None
         | Some r \<Rightarrow>
             if \<not> fst r then Some (False, snd r)
             else erase_rows fc (ptr + ROW_SIZE fc) (sz - ROW_SIZE fc) (snd r))
      else if sz > 0 then FlashClass_erase_row fc ptr hw
      else Some (True, hw))"
  by pat_completeness auto
termination
proof (relation "measure (\<lambda>(fc, ptr, sz, hw). unat sz)", goal_cases)
  case 1
  show ?case by simp
next
  case (2 fc ptr sz hw r)
  then have "ROW_SIZE fc \<noteq> 0"
    by (auto simp: FlashClass_erase_row_def Let_def split: if_splits)
  then have "0 < unat (ROW_SIZE fc)"
    by (simp add: unat_gt_0)
  moreover from 2(1) have "unat (ROW_SIZE fc) < unat sz"
    by (simp add: word_less_nat_alt)
  ultimately show ?case
    by (simp add: unat_sub word_le_nat_alt)
qed

declare erase_rows.simps [simp del]

definition FlashClass_erase :: "FlashClass \<Rightarrow> u32 \<Rightarrow> u32 \<Rightarrow> nvmctrl \<Rightarrow> (bool \<times> nvmctrl) option" where
  "FlashClass_erase fc flash_ptr sz hw =
     (if \<not> isWithinBounds fc flash_ptr sz then Some (False, hw)
      else erase_rows fc flash_ptr sz hw)"

text \<open>The whole-region forms.\<close>

definition FlashClass_write_all :: "FlashClass \<Rightarrow> (nat \<Rightarrow> u8) \<Rightarrow> nvmctrl \<Rightarrow> (bool \<times> nvmctrl) option" where
  "FlashClass_write_all fc data hw = FlashClass_write fc (flash_address fc) data (flash_size fc) hw"

definition FlashClass_erase_all :: "FlashClass \<Rightarrow> nvmctrl \<Rightarrow> (bool \<times> nvmctrl) option" where
  "FlashClass_erase_all fc hw = FlashClass_erase fc (flash_address fc) (flash_size fc) hw"

definition FlashClass_read_all :: "FlashClass \<Rightarrow> nvmctrl \<Rightarrow> u8 list option" where
  "FlashClass_read_all fc hw = FlashClass_read fc (flash_address fc) (flash_size fc) hw"

section \<open>The typed storage layer\<close>

subsection \<open>Identity tag\<close>

text \<open>
  The arithmetic of \<^verbatim>\<open>hash_combine\<close> is done in \<^verbatim>\<open>int\<close> and truncated to 16 bits by the
  return type; sums, left shifts and exclusive-or commute with that truncation, and the
  right shift is taken of the 16-bit value.
\<close>

definition hash_combine :: "u16 \<Rightarrow> u16 \<Rightarrow> u16" where
  "hash_combine hash v = hash XOR (v + 0x9e37 + push_bit 6 hash + drop_bit 2 hash)"

text \<open>
  \<^verbatim>\<open>hash_string\<close> walks the characters up to the terminating NUL, which is the end of the
  list here; \<^verbatim>\<open>char\<close> is unsigned on the target.
\<close>

fun hash_string :: "string \<Rightarrow> u16 \<Rightarrow> u16" where
  "hash_string [] hash = hash"
| "hash_string (c # str) hash =
     (if c = CHR 0x00 then hash else hash_string str (hash_combine hash (of_char c)))"

definition hash_variable :: "string \<Rightarrow> u32 \<Rightarrow> u16" where
  "hash_variable name sz = hash_combine (hash_string name 0x5A5A) (ucast sz)"

subsection \<open>Value types and the layout of the stored record\<close>

text \<open>
  The template parameter \<^verbatim>\<open>T\<close> as the storage class uses it: \<^verbatim>\<open>sizeof(T)\<close>,
  \<^verbatim>\<open>alignof(T)\<close>, and what the declaration \<^verbatim>\<open>T data;\<close> of a local variable puts into
  it: \<open>None\<close> for a type whose default initialisation does nothing (scalars and plain
  structs), \<open>Some bs\<close> for a type whose default constructor leaves the bytes \<open>bs\<close>;
  and the offsets of the padding bytes inside \<^verbatim>\<open>T\<close> (none for a scalar or an array of
  scalars). A value of \<^verbatim>\<open>T\<close> is its byte image, a list of \<^verbatim>\<open>sizeof(T)\<close> bytes.
\<close>

record ctype =
  size_of :: nat
  align_of :: nat
  default_init :: "u8 list option"
  padding_of :: "nat set"

text \<open>
  A copy of a value of \<^verbatim>\<open>T\<close> made by the language: a by-value parameter, the assignment
  of a member, a returned object. The destination receives the bytes of the source that
  are not padding; what the copy leaves in the padding bytes of the destination is not
  fixed by the language (the bytes of the source, the bytes the destination had, or
  anything else), and is given by \<open>pad\<close>.
\<close>

definition copy_T :: "ctype \<Rightarrow> (nat \<Rightarrow> u8) \<Rightarrow> u8 list \<Rightarrow> u8 list" where
  "copy_T T pad src = map (\<lambda>i. if i \<in> padding_of T then pad i else src ! i) [0..<size_of T]"

definition align_up :: "nat \<Rightarrow> nat \<Rightarrow> nat" where
  "align_up n a = ((n + a - 1) div a) * a"

text \<open>
  \<^verbatim>\<open>struct StorageFormat { uint16_t id_hash; T data; uint16_t checksum; }\<close> is an ordinary
  struct (not packed): each member lies at the next offset that is a multiple of its
  alignment, and the size is a multiple of the largest member alignment.
\<close>

definition offsetof_data :: "ctype \<Rightarrow> nat" where
  "offsetof_data T = align_up 2 (align_of T)"

definition offsetof_checksum :: "ctype \<Rightarrow> nat" where
  "offsetof_checksum T = align_up (offsetof_data T + size_of T) 2"

definition sizeof_StorageFormat :: "ctype \<Rightarrow> nat" where
  "sizeof_StorageFormat T = align_up (offsetof_checksum T + 2) (max 2 (align_of T))"

definition store_u16 :: "u16 \<Rightarrow> u8 list" where
  "store_u16 w = [ucast w, ucast (drop_bit 8 w)]"

definition load_u16 :: "u8 list \<Rightarrow> nat \<Rightarrow> u16" where
  "load_u16 bs off = ucast (bs ! off) OR push_bit 8 (ucast (bs ! (off + 1)))"

text \<open>
  The byte image of a \<^verbatim>\<open>StorageFormat\<close> that was zero-initialised (\<^verbatim>\<open>pkg = {}\<close>) and then
  had its three members assigned.
\<close>

definition StorageFormat_bytes :: "ctype \<Rightarrow> u16 \<Rightarrow> u8 list \<Rightarrow> u16 \<Rightarrow> u8 list" where
  "StorageFormat_bytes T id_hash data checksum =
     store_u16 id_hash @ replicate (offsetof_data T - 2) 0 @
     data @ replicate (offsetof_checksum T - (offsetof_data T + size_of T)) 0 @
     store_u16 checksum @ replicate (sizeof_StorageFormat T - (offsetof_checksum T + 2)) 0"

text \<open>The members of a \<^verbatim>\<open>StorageFormat\<close> given by its byte image.\<close>

definition pkg_id_hash :: "u8 list \<Rightarrow> u16" where
  "pkg_id_hash pkg = load_u16 pkg 0"

definition pkg_data :: "ctype \<Rightarrow> u8 list \<Rightarrow> u8 list" where
  "pkg_data T pkg = take (size_of T) (drop (offsetof_data T) pkg)"

definition pkg_checksum :: "ctype \<Rightarrow> u8 list \<Rightarrow> u16" where
  "pkg_checksum T pkg = load_u16 pkg (offsetof_checksum T)"

subsection \<open>FlashStorageClass\<close>

record FlashStorageClass =
  flash :: FlashClass
  variable_hash :: u16

text \<open>
  \<^verbatim>\<open>calcChecksum\<close>: the body of the loop, for the byte \<^verbatim>\<open>ptr[i]\<close> and the running
  \<^verbatim>\<open>sum\<close>, and the loop over the first \<^verbatim>\<open>len\<close> bytes from the seed.
\<close>

definition checksum_step :: "u8 \<Rightarrow> u16 \<Rightarrow> u16" where
  "checksum_step b s = (let s = s + ucast b in s XOR drop_bit 8 s)"

definition calcChecksum :: "u8 list \<Rightarrow> nat \<Rightarrow> u16" where
  "calcChecksum ptr len = fold checksum_step (take len ptr) 0xA5A5"

definition FlashStorageClass_ctor :: "ctype \<Rightarrow> nvmctrl \<Rightarrow> u32 \<Rightarrow> u16 \<Rightarrow> FlashStorageClass" where
  "FlashStorageClass_ctor T hw flash_addr var_hash =
     \<lparr>flash = FlashClass_ctor hw flash_addr (of_nat (sizeof_StorageFormat T)),
      variable_hash = var_hash\<rparr>"

text \<open>
  \<^verbatim>\<open>write(T data)\<close>. The caller's value reaches \<^verbatim>\<open>pkg.data\<close> through two copies, the
  by-value parameter and the assignment \<^verbatim>\<open>pkg.data = data\<close>: \<open>data\<close> is the caller's value
  and \<open>pad\<close> what the copies leave in the padding bytes of \<^verbatim>\<open>pkg.data\<close>. The checksum is
  computed over the bytes of \<^verbatim>\<open>pkg.data\<close>. The driver's \<^verbatim>\<open>write\<close> reads its source in whole
  32-bit words, so it can read past the end of \<^verbatim>\<open>pkg\<close>; \<open>stack\<close> is the memory that
  follows \<^verbatim>\<open>pkg\<close>.
\<close>

definition FlashStorageClass_write ::
  "ctype \<Rightarrow> FlashStorageClass \<Rightarrow> u8 list \<Rightarrow> (nat \<Rightarrow> u8) \<Rightarrow> (nat \<Rightarrow> u8) \<Rightarrow> nvmctrl
     \<Rightarrow> (bool \<times> nvmctrl) option" where
  "FlashStorageClass_write T fs data pad stack hw =
     (let pkg_data = copy_T T pad data;
          pkg = StorageFormat_bytes T (variable_hash fs) pkg_data
                  (calcChecksum pkg_data (size_of T));
          unchanged =
            (case FlashClass_read_all (flash fs) hw of
               None \<Rightarrow> False
             | Some existing \<Rightarrow>
                 take (sizeof_StorageFormat T) pkg = take (sizeof_StorageFormat T) existing)
      in if unchanged then Some (True, hw)
         else
           (case FlashClass_erase_all (flash fs) hw of
              None \<Rightarrow> None
            | Some r \<Rightarrow>
                if \<not> fst r then Some (False, snd r)
                else FlashClass_write_all (flash fs)
                       (\<lambda>i. if i < length pkg then pkg ! i else stack (i - length pkg)) (snd r)))"

text \<open>
  \<^verbatim>\<open>read(T *data)\<close>: the result and the contents of \<^verbatim>\<open>*data\<close> after the call, given its
  contents before. On success \<^verbatim>\<open>*data = pkg.data\<close> is a copy of a \<^verbatim>\<open>T\<close>; \<open>pad\<close> is what it
  leaves in the padding bytes of \<^verbatim>\<open>*data\<close>.
\<close>

definition FlashStorageClass_read ::
  "ctype \<Rightarrow> FlashStorageClass \<Rightarrow> u8 list \<Rightarrow> (nat \<Rightarrow> u8) \<Rightarrow> nvmctrl \<Rightarrow> bool \<times> u8 list" where
  "FlashStorageClass_read T fs data pad hw =
     (case FlashClass_read_all (flash fs) hw of
        None \<Rightarrow> (False, data)
      | Some pkg \<Rightarrow>
          if pkg_id_hash pkg \<noteq> variable_hash fs then (False, data)
          else
            let expected = calcChecksum (pkg_data T pkg) (size_of T) in
            if pkg_checksum T pkg \<noteq> expected then (False, data)
            else (True, copy_T T pad (pkg_data T pkg)))"

text \<open>
  The form \<^verbatim>\<open>T read()\<close>: a local \<^verbatim>\<open>T data;\<close> is declared, passed to the boolean form and
  returned by value. \<open>slot\<close> is what the memory of the local held before the declaration,
  \<open>pad\<close> the padding left by the copy inside the boolean form, and \<open>ret\<close> the padding left
  by the copy into the returned object.
\<close>

definition FlashStorageClass_read0 ::
  "ctype \<Rightarrow> FlashStorageClass \<Rightarrow> u8 list \<Rightarrow> (nat \<Rightarrow> u8) \<Rightarrow> (nat \<Rightarrow> u8) \<Rightarrow> nvmctrl \<Rightarrow> u8 list" where
  "FlashStorageClass_read0 T fs slot pad ret hw =
     (let data = (case default_init T of None \<Rightarrow> slot | Some bs \<Rightarrow> bs)
      in copy_T T ret (snd (FlashStorageClass_read T fs data pad hw)))"

text \<open>The addresses of the row-erase commands in a command sequence, in order.\<close>

fun erase_addresses :: "command list \<Rightarrow> u32 list" where
  "erase_addresses [] = []"
| "erase_addresses (CMD_ER a # cs) = a # erase_addresses cs"
| "erase_addresses (c # cs) = erase_addresses cs"

text \<open>
  The number of rows that a range of \<open>n\<close> bytes spans when a row has \<open>R\<close> bytes: the full
  rows, and one more for a remainder.
\<close>

definition erase_row_count :: "nat \<Rightarrow> nat \<Rightarrow> nat" where
  "erase_row_count n R = n div R + (if 0 < n mod R then 1 else 0)"



text \<open>One bit of one stored byte changed behind the driver's back.\<close>

definition flip_stored_bit :: "u32 \<Rightarrow> nat \<Rightarrow> nvmctrl \<Rightarrow> nvmctrl" where
  "flip_stored_bit a b hw = hw\<lparr>mem := (mem hw)(a := flip_bit b (mem hw a))\<rparr>"

section \<open>Example devices and regions\<close>

text \<open>
  A SAMD21 with 64-byte pages (rows of 256 bytes) and 4096 pages, its flash erased, and a
  256-byte region at \<open>0x2000\<close> on it.
\<close>

definition erased_hw :: nvmctrl where
  "erased_hw = \<lparr>variant = SAMD21, PSZ = 3, NVMP = 4096, mem = (\<lambda>a. 0xFF),
                 page_buffer = (\<lambda>a. None), commands = []\<rparr>"

definition region_2000 :: FlashClass where
  "region_2000 = FlashClass_ctor erased_hw 0x2000 256"

text \<open>A source buffer of zero bytes.\<close>

definition zero_bytes :: "nat \<Rightarrow> u8" where
  "zero_bytes i = 0"

text \<open>
  Two value types, \<^verbatim>\<open>uint16_t\<close> and \<^verbatim>\<open>uint32_t\<close>; the store that \<^verbatim>\<open>FlashStorage(a, uint16_t)\<close>
  declares over the block at \<open>0x2000\<close>, and the controller after that store has written
  \<open>0x1234\<close> to erased flash.
\<close>

definition uint16_T :: ctype where
  "uint16_T = \<lparr>size_of = 2, align_of = 2, default_init = None, padding_of = {}\<rparr>"

definition uint32_T :: ctype where
  "uint32_T = \<lparr>size_of = 4, align_of = 4, default_init = None, padding_of = {}\<rparr>"

definition store_a :: FlashStorageClass where
  "store_a = FlashStorageClass_ctor uint16_T erased_hw 0x2000 (hash_variable ''a'' 2)"

definition stored_hw :: nvmctrl where
  "stored_hw = snd (the (FlashStorageClass_write uint16_T store_a [0x34, 0x12] zero_bytes
                           zero_bytes erased_hw))"

text \<open>
  A type with internal padding, \<^verbatim>\<open>struct { uint8_t tag; uint32_t value; }\<close>: eight bytes,
  of which the three after \<^verbatim>\<open>tag\<close> are padding; a value of it whose padding bytes hold
  \<open>0xCC\<close>; the store \<^verbatim>\<open>FlashStorage(p, T)\<close> for it, and the controller after that store has
  written the value to erased flash with copies that zero the padding.
\<close>

definition padded_T :: ctype where
  "padded_T = \<lparr>size_of = 8, align_of = 4, default_init = None, padding_of = {1, 2, 3}\<rparr>"

definition padded_value :: "u8 list" where
  "padded_value = [0x11, 0xCC, 0xCC, 0xCC, 0x78, 0x56, 0x34, 0x12]"

definition store_p :: FlashStorageClass where
  "store_p = FlashStorageClass_ctor padded_T erased_hw 0x2000 (hash_variable ''p'' 8)"

definition padded_hw :: nvmctrl where
  "padded_hw = snd (the (FlashStorageClass_write padded_T store_p padded_value zero_bytes
                           zero_bytes erased_hw))"

section \<open>Word arithmetic\<close>

lemma unat_u32_bound: "unat (w :: u32) < 4294967296"
  using unsigned_less [of w, where 'a = nat] by simp


section \<open>Bounds checking\<close>

lemma unat_max_minus: "unat (0xFFFFFFFF - sz :: u32) = 4294967295 - unat sz"
proof -
  have "sz \<le> 0xFFFFFFFF" using unat_u32_bound [of sz] by (simp add: word_le_nat_alt)
  then show ?thesis by (simp add: unat_sub)
qed

lemma unat_add_u32: "unat a + unat b < 4294967296 \<Longrightarrow> unat (a + b :: u32) = unat a + unat b"
  by (simp add: unat_word_ariths)

lemma isWithinBounds_range:
  assumes "isWithinBounds fc ptr sz" "flash_size fc \<noteq> 0" "flash_address fc \<noteq> 0"
  shows "unat (flash_address fc) \<le> unat ptr \<and>
         unat ptr + unat sz \<le> unat (flash_address fc) + unat (flash_size fc) \<and>
         unat ptr + unat sz < 2 ^ 32"
proof -
  from assms have le: "ptr \<le> 0xFFFFFFFF - sz"
    and lo: "flash_address fc \<le> ptr"
    and hi: "ptr + sz \<le> flash_address fc + flash_size fc"
    by (auto simp: isWithinBounds_def Let_def split: if_splits)
  from le have nowrap: "unat ptr + unat sz < 4294967296"
    using unat_u32_bound [of sz] by (simp add: word_le_nat_alt unat_max_minus)
  then have "unat (ptr + sz) = unat ptr + unat sz"
    by (rule unat_add_u32)
  moreover have "unat (flash_address fc + flash_size fc) \<le> unat (flash_address fc) + unat (flash_size fc)"
    by (simp add: unat_word_ariths)
  ultimately have "unat ptr + unat sz \<le> unat (flash_address fc) + unat (flash_size fc)"
    using hi by (simp add: word_le_nat_alt)
  with lo nowrap show ?thesis by (simp add: word_le_nat_alt)
qed

lemma read_ok_iff: "FlashClass_read fc ptr sz hw \<noteq> None \<longleftrightarrow> isWithinBounds fc ptr sz"
  by (simp add: FlashClass_read_def del: not_None_eq)

lemma write_ok_bounds:
  "FlashClass_write fc ptr data sz hw = Some (True, hw') \<Longrightarrow> isWithinBounds fc ptr sz"
  by (auto simp: FlashClass_write_def split: if_splits)

lemma erase_ok_bounds:
  "FlashClass_erase fc ptr sz hw = Some (True, hw') \<Longrightarrow> isWithinBounds fc ptr sz"
  by (auto simp: FlashClass_erase_def split: if_splits)

text \<open>
  C1. On a region with a declared length \<open>L > 0\<close> and a non-null base, a read, write or
  erase of \<open>(ptr, size)\<close> succeeds only if \<open>ptr \<ge> base\<close>, \<open>ptr + size \<le> base + L\<close> and
  \<open>ptr + size\<close> does not overflow the 32-bit address width (the sums are those of the
  natural numbers). On a region with \<open>L = 0\<close> every range passes the bounds check: the
  read succeeds, the write is never refused, and the erase is the erase of the rows.
\<close>

theorem bounds_safety:
  "(flash_size fc \<noteq> 0 \<and> flash_address fc \<noteq> 0 \<and>
      (FlashClass_read fc ptr sz hw \<noteq> None \<or>
       (\<exists>hw'. FlashClass_write fc ptr data sz hw = Some (True, hw')) \<or>
       (\<exists>hw'. FlashClass_erase fc ptr sz hw = Some (True, hw')))
    \<longrightarrow> unat (flash_address fc) \<le> unat ptr \<and>
        unat ptr + unat sz \<le> unat (flash_address fc) + unat (flash_size fc) \<and>
        unat ptr + unat sz < 2 ^ 32) \<and>
   (flash_size fc = 0
    \<longrightarrow> isWithinBounds fc ptr sz \<and>
        FlashClass_read fc ptr sz hw \<noteq> None \<and>
        (\<forall>hw'. FlashClass_write fc ptr data sz hw \<noteq> Some (False, hw')) \<and>
        FlashClass_erase fc ptr sz hw = erase_rows fc ptr sz hw)"
proof (rule conjI; rule impI)
  assume a: "flash_size fc \<noteq> 0 \<and> flash_address fc \<noteq> 0 \<and>
      (FlashClass_read fc ptr sz hw \<noteq> None \<or>
       (\<exists>hw'. FlashClass_write fc ptr data sz hw = Some (True, hw')) \<or>
       (\<exists>hw'. FlashClass_erase fc ptr sz hw = Some (True, hw')))"
  then have "isWithinBounds fc ptr sz"
    using read_ok_iff write_ok_bounds erase_ok_bounds by blast
  with a show "unat (flash_address fc) \<le> unat ptr \<and>
        unat ptr + unat sz \<le> unat (flash_address fc) + unat (flash_size fc) \<and>
        unat ptr + unat sz < 2 ^ 32"
    using isWithinBounds_range by blast
next
  assume z: "flash_size fc = 0"
  then have b: "isWithinBounds fc ptr sz" by (simp add: isWithinBounds_def)
  then have "FlashClass_read fc ptr sz hw \<noteq> None" using read_ok_iff by blast
  moreover from b have "\<forall>hw'. FlashClass_write fc ptr data sz hw \<noteq> Some (False, hw')"
    by (simp add: FlashClass_write_def split: option.splits)
  moreover from b have "FlashClass_erase fc ptr sz hw = erase_rows fc ptr sz hw"
    by (simp add: FlashClass_erase_def)
  ultimately show "isWithinBounds fc ptr sz \<and>
        FlashClass_read fc ptr sz hw \<noteq> None \<and>
        (\<forall>hw'. FlashClass_write fc ptr data sz hw \<noteq> Some (False, hw')) \<and>
        FlashClass_erase fc ptr sz hw = erase_rows fc ptr sz hw"
    using b by simp
qed

lemma region_2000_fields:
  "PAGE_SIZE region_2000 = 64" "ROW_SIZE region_2000 = 256"
  "flash_address region_2000 = 0x2000" "flash_size region_2000 = 256"
  by (simp_all add: region_2000_def FlashClass_ctor_def erased_hw_def pageSizes_def)

theorem bounds_safety_witness:
  "(flash_size region_2000 \<noteq> 0 \<and> flash_address region_2000 \<noteq> 0 \<and>
    FlashClass_read region_2000 0x2010 4 erased_hw \<noteq> None \<and>
    unat (flash_address region_2000) \<le> unat (0x2010 :: u32) \<and>
    unat (0x2010 :: u32) + unat (4 :: u32)
      \<le> unat (flash_address region_2000) + unat (flash_size region_2000) \<and>
    unat (0x2010 :: u32) + unat (4 :: u32) < 2 ^ 32) \<and>
   (flash_size (region_2000\<lparr>flash_size := 0\<rparr>) = 0 \<and>
    isWithinBounds (region_2000\<lparr>flash_size := 0\<rparr>) 0xFFFFFFF0 0x100 \<and>
    FlashClass_read (region_2000\<lparr>flash_size := 0\<rparr>) 0xFFFFFFF0 0x100 erased_hw \<noteq> None)"
proof -
  have r: "FlashClass_read region_2000 0x2010 4 erased_hw \<noteq> None"
    by (simp add: FlashClass_read_def isWithinBounds_def region_2000_fields del: not_None_eq)
  show ?thesis
    using r bounds_safety [of region_2000 "0x2010" 4 erased_hw "\<lambda>i. 0"]
      bounds_safety [of "region_2000\<lparr>flash_size := 0\<rparr>" "0xFFFFFFF0" "0x100" erased_hw "\<lambda>i. 0"]
    by (simp add: region_2000_fields del: not_None_eq)
qed

section \<open>The page-programming loop\<close>

text \<open>Shifting the origin of an address window.\<close>

lemma unat_sub_of_nat:
  fixes x :: u32
  assumes "c < 4294967296"
  shows "unat (x - of_nat c) = (if c \<le> unat x then unat x - c else unat x + 4294967296 - c)"
proof -
  have c: "unat (of_nat c :: u32) = c"
    using assms by (simp add: unat_of_nat)
  show ?thesis
  proof (cases "c \<le> unat x")
    case True
    then have "of_nat c \<le> x" by (simp add: word_le_nat_alt c)
    then show ?thesis using True by (simp add: unat_sub c)
  next
    case False
    then show ?thesis
      using unat_u32_bound [of x] assms
      by (simp add: unat_sub_if_size c word_size)
  qed
qed

lemma window_shift:
  fixes x :: u32
  assumes "c + m \<le> 4294967296" "c < 4294967296"
  shows "unat (x - of_nat c) < m \<longleftrightarrow> c \<le> unat x \<and> unat x < c + m"
  using assms unat_u32_bound [of x] by (auto simp: unat_sub_of_nat)

lemma small_u32_cases:
  fixes x :: u32
  assumes "unat x < 4"
  shows "x = 0 \<or> x = 1 \<or> x = 2 \<or> x = 3"
proof -
  from assms have "unat x = 0 \<or> unat x = 1 \<or> unat x = 2 \<or> unat x = 3" by arith
  then show ?thesis by (auto simp: word_unat_eq_iff)
qed

lemma store32_lookup:
  "page_buffer (hw_store32 dst (read_unaligned_uint32 data so) hw) a =
     (if unat (a - dst) < 4 then Some (data (so + unat (a - dst))) else page_buffer hw a)"
proof -
  define x where "x = a - dst"
  then have a: "a = dst + x" by simp
  have eqs: "dst + x = dst \<longleftrightarrow> x = 0" "dst + x = dst + 1 \<longleftrightarrow> x = 1"
    "dst + x = dst + 2 \<longleftrightarrow> x = 2" "dst + x = dst + 3 \<longleftrightarrow> x = 3"
    by simp_all
  show ?thesis
  proof (cases "unat x < 4")
    case True
    from small_u32_cases [OF this] show ?thesis
      unfolding a by (auto simp: hw_store32_def read_unaligned_uint32_def)
  next
    case False
    then have "x \<noteq> 0" "x \<noteq> 1" "x \<noteq> 2" "x \<noteq> 3" by auto
    with False show ?thesis
      unfolding a by (simp add: hw_store32_def read_unaligned_uint32_def eqs)
  qed
qed

lemma store32_fields:
  "mem (hw_store32 dst w hw) = mem hw" "commands (hw_store32 dst w hw) = commands hw"
  "variant (hw_store32 dst w hw) = variant hw" "PSZ (hw_store32 dst w hw) = PSZ hw"
  "NVMP (hw_store32 dst w hw) = NVMP hw"
  by (simp_all add: hw_store32_def split: prod.splits)

lemma fill_page_buffer_result:
  assumes "4 * unat sz < 4294967296"
  shows "\<exists>hw'. fill_page_buffer i lim data so dst sz hw =
           (so + 4 * min (unat lim - unat i) (unat sz),
            dst + of_nat (4 * min (unat lim - unat i) (unat sz)),
            sz - of_nat (min (unat lim - unat i) (unat sz)), hw') \<and>
          page_buffer hw' =
            (\<lambda>a. if unat (a - dst) < 4 * min (unat lim - unat i) (unat sz)
                 then Some (data (so + unat (a - dst))) else page_buffer hw a) \<and>
          mem hw' = mem hw \<and> commands hw' = commands hw \<and>
          variant hw' = variant hw \<and> PSZ hw' = PSZ hw \<and> NVMP hw' = NVMP hw"
  using assms
proof (induction i lim data so dst sz hw rule: fill_page_buffer.induct)
  case (1 i lim data so dst sz hw)
  let ?k = "min (unat lim - unat i) (unat sz)"
  show ?case
  proof (cases "i < lim \<and> sz \<noteq> 0")
    case False
    then have "?k = 0"
      by (auto simp: word_less_nat_alt unat_gt_0 min_def)
    with False show ?thesis
      by (subst fill_page_buffer.simps) auto
  next
    case True
    then have il: "unat i < unat lim" and sz0: "0 < unat sz"
      by (simp_all add: word_less_nat_alt unat_gt_0)
    have ui: "unat (i + 1) = unat i + 1"
      using il unat_u32_bound [of lim] by (simp add: unat_word_ariths)
    have us: "unat (sz - 1) = unat sz - 1"
      using True by (simp add: unat_minus_one)
    let ?hw1 = "hw_store32 dst (read_unaligned_uint32 data so) hw"
    let ?k' = "min (unat lim - unat (i + 1)) (unat (sz - 1))"
    have k: "?k = Suc ?k'" using il sz0 unfolding ui us by linarith
    have "4 * unat (sz - 1) < 4294967296"
      using "1.prems" unfolding us by linarith
    from "1.IH" [OF True this] obtain hw' where
      r: "fill_page_buffer (i + 1) lim data (so + 4) (dst + 4) (sz - 1) ?hw1 =
            (so + 4 + 4 * ?k', dst + 4 + of_nat (4 * ?k'), sz - 1 - of_nat ?k', hw')"
      and pb: "page_buffer hw' =
            (\<lambda>a. if unat (a - (dst + 4)) < 4 * ?k'
                 then Some (data (so + 4 + unat (a - (dst + 4)))) else page_buffer ?hw1 a)"
      and rest: "mem hw' = mem ?hw1" "commands hw' = commands ?hw1"
        "variant hw' = variant ?hw1" "PSZ hw' = PSZ ?hw1" "NVMP hw' = NVMP ?hw1"
      by blast
    have kb: "4 + 4 * ?k' \<le> 4294967296"
      using "1.prems" sz0 unfolding us by linarith
    have "page_buffer hw' =
            (\<lambda>a. if unat (a - dst) < 4 * ?k
                 then Some (data (so + unat (a - dst))) else page_buffer hw a)"
    proof
      fix a
      have s: "a - (dst + 4) = (a - dst) - 4" by simp
      have w: "unat (a - dst - 4) < 4 * ?k' \<longleftrightarrow> 4 \<le> unat (a - dst) \<and> unat (a - dst) < 4 + 4 * ?k'"
        using window_shift [of 4 "4 * ?k'" "a - dst"] kb by simp
      have u: "4 \<le> unat (a - dst) \<Longrightarrow> unat (a - dst - 4) = unat (a - dst) - 4"
        using unat_sub_of_nat [of 4 "a - dst"] by simp
      show "page_buffer hw' a =
            (if unat (a - dst) < 4 * ?k
                 then Some (data (so + unat (a - dst))) else page_buffer hw a)"
        unfolding pb s k using w u by (auto simp: store32_lookup)
    qed
    moreover have "fill_page_buffer i lim data so dst sz hw =
           (so + 4 * ?k, dst + of_nat (4 * ?k), sz - of_nat ?k, hw')"
      using True r by (subst fill_page_buffer.simps) (simp add: k)
    ultimately show ?thesis
      using rest by (simp add: store32_fields)
  qed
qed

lemma erase_addresses_append:
  "erase_addresses (xs @ ys) = erase_addresses xs @ erase_addresses ys"
  by (induction xs rule: erase_addresses.induct) simp_all

lemma write_pages_result:
  assumes "page_size div 4 \<noteq> 0" "4 * unat sz < 4294967296"
  shows "\<exists>hw'. write_pages page_size data so dst sz hw = Some hw' \<and>
          mem hw' = (\<lambda>a. if unat (a - dst) < 4 * unat sz
                         then mem hw a AND data (so + unat (a - dst)) else mem hw a) \<and>
          erase_addresses (commands hw') = erase_addresses (commands hw) \<and>
          variant hw' = variant hw \<and> PSZ hw' = PSZ hw \<and> NVMP hw' = NVMP hw"
  using assms(2)
proof (induction "unat sz" arbitrary: sz so dst hw rule: less_induct)
  case less
  show ?case
  proof (cases "sz = 0")
    case True
    then show ?thesis by (subst write_pages.simps) simp
  next
    case False
    let ?lim = "page_size div 4"
    let ?k = "min (unat ?lim - unat (0 :: u32)) (unat sz)"
    let ?hw0 = "hw_page_buffer_clear hw"
    from fill_page_buffer_result [OF less.prems, of 0 ?lim data so dst ?hw0]
    obtain hw1 where
      f: "fill_page_buffer 0 ?lim data so dst sz ?hw0 =
            (so + 4 * ?k, dst + of_nat (4 * ?k), sz - of_nat ?k, hw1)"
      and pb: "page_buffer hw1 =
            (\<lambda>a. if unat (a - dst) < 4 * ?k
                 then Some (data (so + unat (a - dst))) else page_buffer ?hw0 a)"
      and rest: "mem hw1 = mem ?hw0" "commands hw1 = commands ?hw0"
        "variant hw1 = variant ?hw0" "PSZ hw1 = PSZ ?hw0" "NVMP hw1 = NVMP ?hw0"
      by blast
    have kpos: "0 < ?k" and kle: "?k \<le> unat sz"
      using False assms(1) by (simp_all add: unat_gt_0)
    have k32: "?k < 4294967296" using kle less.prems by linarith
    have usz: "unat (sz - of_nat ?k) = unat sz - ?k"
      using unat_sub_of_nat [OF k32, of sz] kle by simp
    have lt: "unat (sz - of_nat ?k) < unat sz" using usz kpos kle by linarith
    have b: "4 * unat (sz - of_nat ?k) < 4294967296" using usz less.prems by linarith
    let ?hw2 = "hw_write_page hw1"
    from less.hyps [OF lt b, of "so + 4 * ?k" "dst + of_nat (4 * ?k)" ?hw2]
    obtain hw' where
      w: "write_pages page_size data (so + 4 * ?k) (dst + of_nat (4 * ?k)) (sz - of_nat ?k) ?hw2 = Some hw'"
      and m: "mem hw' = (\<lambda>a. if unat (a - (dst + of_nat (4 * ?k))) < 4 * unat (sz - of_nat ?k)
                         then mem ?hw2 a AND data (so + 4 * ?k + unat (a - (dst + of_nat (4 * ?k))))
                         else mem ?hw2 a)"
      and rest': "erase_addresses (commands hw') = erase_addresses (commands ?hw2)"
        "variant hw' = variant ?hw2" "PSZ hw' = PSZ ?hw2" "NVMP hw' = NVMP ?hw2"
      by blast
    have res: "write_pages page_size data so dst sz hw = Some hw'"
      using False f w by (subst write_pages.simps) simp
    have m2: "mem ?hw2 = (\<lambda>a. if unat (a - dst) < 4 * ?k
                 then mem hw a AND data (so + unat (a - dst)) else mem hw a)"
      by (rule ext) (simp add: hw_write_page_def pb rest hw_page_buffer_clear_def)
    have c4: "4 * ?k < 4294967296" using kle less.prems by linarith
    have mem: "mem hw' = (\<lambda>a. if unat (a - dst) < 4 * unat sz
                         then mem hw a AND data (so + unat (a - dst)) else mem hw a)"
    proof
      fix a
      have s: "a - (dst + of_nat (4 * ?k)) = (a - dst) - of_nat (4 * ?k)" by simp
      have ws: "unat (a - dst - of_nat (4 * ?k)) < 4 * (unat sz - ?k) \<longleftrightarrow>
                 4 * ?k \<le> unat (a - dst) \<and> unat (a - dst) < 4 * ?k + 4 * (unat sz - ?k)"
        by (rule window_shift) (use kle less.prems c4 in linarith)+
      have u: "4 * ?k \<le> unat (a - dst) \<Longrightarrow>
                 unat (a - dst - of_nat (4 * ?k)) = unat (a - dst) - 4 * ?k"
        using unat_sub_of_nat [OF c4, of "a - dst"] by simp
      have e: "4 * ?k + 4 * (unat sz - ?k) = 4 * unat sz" using kle by linarith
      show "mem hw' a = (if unat (a - dst) < 4 * unat sz
                         then mem hw a AND data (so + unat (a - dst)) else mem hw a)"
        unfolding m m2 s usz using ws u e kle
        by (cases "unat (a - dst) < 4 * ?k") auto
    qed
    have cmds: "erase_addresses (commands hw') = erase_addresses (commands hw)"
      by (simp add: rest' hw_write_page_def rest hw_page_buffer_clear_def erase_addresses_append)
    from res mem cmds show ?thesis
      by (simp add: rest' hw_write_page_def rest hw_page_buffer_clear_def)
  qed
qed

lemma words_bound: "4 * unat ((sz + 3) div 4 :: u32) < 4294967296"
  using unat_u32_bound [of "sz + 3"] by (simp add: unat_div)

lemma words_round_up:
  "unat sz + 3 < 4294967296 \<Longrightarrow> 4 * unat ((sz + 3) div 4 :: u32) = 4 * ((unat sz + 3) div 4)"
  by (simp add: unat_div unat_add_u32)

lemma page_words_nonzero: "4 \<le> (page_size :: u32) \<Longrightarrow> page_size div 4 \<noteq> 0"
  by (simp add: word_le_nat_alt word_unat_eq_iff unat_div)

lemma FlashClass_write_result:
  assumes "isWithinBounds fc ptr sz" "4 \<le> PAGE_SIZE fc"
  shows "\<exists>hw'. FlashClass_write fc ptr data sz hw = Some (True, hw') \<and>
          mem hw' = (\<lambda>a. if unat (a - ptr) < 4 * unat ((sz + 3) div 4)
                         then mem hw a AND data (unat (a - ptr)) else mem hw a) \<and>
          erase_addresses (commands hw') = erase_addresses (commands hw) \<and>
          variant hw' = variant hw \<and> PSZ hw' = PSZ hw \<and> NVMP hw' = NVMP hw"
proof -
  have "\<exists>hw'. write_pages (PAGE_SIZE fc) data 0 ptr ((sz + 3) div 4) hw = Some hw' \<and>
          mem hw' = (\<lambda>a. if unat (a - ptr) < 4 * unat ((sz + 3) div 4)
                         then mem hw a AND data (0 + unat (a - ptr)) else mem hw a) \<and>
          erase_addresses (commands hw') = erase_addresses (commands hw) \<and>
          variant hw' = variant hw \<and> PSZ hw' = PSZ hw \<and> NVMP hw' = NVMP hw"
    by (rule write_pages_result [OF page_words_nonzero [OF assms(2)] words_bound])
  then obtain hw' where "write_pages (PAGE_SIZE fc) data 0 ptr ((sz + 3) div 4) hw = Some hw'"
    and "mem hw' = (\<lambda>a. if unat (a - ptr) < 4 * unat ((sz + 3) div 4)
                         then mem hw a AND data (unat (a - ptr)) else mem hw a)"
    and "erase_addresses (commands hw') = erase_addresses (commands hw)"
    and "variant hw' = variant hw" "PSZ hw' = PSZ hw" "NVMP hw' = NVMP hw"
    unfolding add_0 by blast
  with assms(1) show ?thesis
    by (simp add: FlashClass_write_def)
qed

text \<open>
  C8 (amended). A successful \<^verbatim>\<open>write(ptr, src, size)\<close> with \<open>size + 3\<close> representable in
  32 bits programs whole 32-bit words: with \<open>n\<close> the size rounded up to a multiple of four,
  each flash byte \<open>ptr + i\<close>, \<open>i < n\<close>, becomes the conjunction of its old value and
  \<open>src[i]\<close> (which is \<open>src[i]\<close> on erased flash), and no byte outside \<open>[ptr, ptr + n)\<close>
  is modified; \<open>n\<close> is \<open>size\<close> when \<open>size\<close> is a multiple of four.
\<close>

theorem write_frame:
  assumes "FlashClass_write fc ptr data sz hw = Some (True, hw')"
    and "4 \<le> PAGE_SIZE fc" and "unat sz + 3 < 2 ^ 32"
  shows "(\<forall>i < 4 * ((unat sz + 3) div 4).
            mem hw' (ptr + of_nat i) = mem hw (ptr + of_nat i) AND data i) \<and>
         (\<forall>a. 4 * ((unat sz + 3) div 4) \<le> unat (a - ptr) \<longrightarrow> mem hw' a = mem hw a) \<and>
         (4 dvd unat sz \<longrightarrow> 4 * ((unat sz + 3) div 4) = unat sz)"
proof -
  have b: "isWithinBounds fc ptr sz" using assms(1) by (rule write_ok_bounds)
  from FlashClass_write_result [OF b assms(2), of data hw] assms(1)
  have m: "mem hw' = (\<lambda>a. if unat (a - ptr) < 4 * unat ((sz + 3) div 4)
                         then mem hw a AND data (unat (a - ptr)) else mem hw a)"
    by auto
  have n: "4 * unat ((sz + 3) div 4) = 4 * ((unat sz + 3) div 4)"
    using assms(3) by (simp add: words_round_up)
  have "mem hw' (ptr + of_nat i) = mem hw (ptr + of_nat i) AND data i"
    if "i < 4 * ((unat sz + 3) div 4)" for i
  proof -
    have "i < 4294967296" using that assms(3) by simp
    then have "unat (of_nat i :: u32) = i" by (simp add: unat_of_nat)
    with that show ?thesis by (simp add: m n)
  qed
  moreover have "mem hw' a = mem hw a" if "4 * ((unat sz + 3) div 4) \<le> unat (a - ptr)" for a
    using that by (simp add: m n)
  moreover have "4 dvd unat sz \<longrightarrow> 4 * ((unat sz + 3) div 4) = unat sz"
    by (auto elim!: dvdE)
  ultimately show ?thesis by blast
qed

lemma example_write:
  assumes "isWithinBounds region_2000 0x2000 sz"
  shows "\<exists>hw'. FlashClass_write region_2000 0x2000 zero_bytes sz erased_hw = Some (True, hw') \<and>
     mem hw' = (\<lambda>a. if unat (a - 0x2000) < 4 * unat ((sz + 3) div 4)
                         then mem erased_hw a AND zero_bytes (unat (a - 0x2000)) else mem erased_hw a)"
  using FlashClass_write_result [OF assms, of zero_bytes erased_hw]
  by (auto simp: region_2000_fields)

lemma example_bounds:
  "isWithinBounds region_2000 0x2000 1" "isWithinBounds region_2000 0x2000 8"
  by (simp_all add: isWithinBounds_def region_2000_fields)

text \<open>
  C8 as stated fails: a successful write of one byte also programs the three bytes that
  follow it.
\<close>

theorem write_frame_counterexample:
  "fst (the (FlashClass_write region_2000 0x2000 zero_bytes 1 erased_hw)) \<and>
   mem (snd (the (FlashClass_write region_2000 0x2000 zero_bytes 1 erased_hw))) 0x2001
     \<noteq> mem erased_hw 0x2001"
  using example_write [OF example_bounds(1)] by (auto simp: erased_hw_def zero_bytes_def)

theorem write_frame_witness:
  "FlashClass_write region_2000 0x2000 zero_bytes 8 erased_hw
     = Some (True, snd (the (FlashClass_write region_2000 0x2000 zero_bytes 8 erased_hw))) \<and>
   4 \<le> PAGE_SIZE region_2000 \<and> unat (8 :: u32) + 3 < 2 ^ 32 \<and> 4 dvd unat (8 :: u32) \<and>
   (7 :: nat) < 4 * ((unat (8 :: u32) + 3) div 4) \<and>
   mem (snd (the (FlashClass_write region_2000 0x2000 zero_bytes 8 erased_hw))) (0x2000 + of_nat 7)
     = mem erased_hw (0x2000 + of_nat 7) AND zero_bytes 7 \<and>
   4 * ((unat (8 :: u32) + 3) div 4) \<le> unat (0x2008 - 0x2000 :: u32) \<and>
   mem (snd (the (FlashClass_write region_2000 0x2000 zero_bytes 8 erased_hw))) 0x2008
     = mem erased_hw 0x2008 \<and>
   4 * ((unat (8 :: u32) + 3) div 4) = unat (8 :: u32)"
proof -
  let ?hw = "snd (the (FlashClass_write region_2000 0x2000 zero_bytes 8 erased_hw))"
  have w: "FlashClass_write region_2000 0x2000 zero_bytes 8 erased_hw = Some (True, ?hw)"
    using example_write [OF example_bounds(2)] by auto
  have p: "4 \<le> PAGE_SIZE region_2000" by (simp add: region_2000_fields)
  have n: "unat (8 :: u32) + 3 < 2 ^ 32" by simp
  from write_frame [OF w p n] have
    "mem ?hw (0x2000 + of_nat 7) = mem erased_hw (0x2000 + of_nat 7) AND zero_bytes 7"
    "mem ?hw 0x2008 = mem erased_hw 0x2008"
    by (simp_all del: of_nat_numeral)
  with w p show ?thesis by simp
qed

section \<open>A region with a null base\<close>

lemma erase_row_flash_size:
  "FlashClass_erase_row (fc\<lparr>flash_size := z\<rparr>) ptr hw = FlashClass_erase_row fc ptr hw"
  by (simp add: FlashClass_erase_row_def cong: device.case_cong)

lemma erase_rows_flash_size:
  "erase_rows (fc\<lparr>flash_size := z\<rparr>) ptr sz hw = erase_rows fc ptr sz hw"
proof (induction fc ptr sz hw rule: erase_rows.induct)
  case (1 fc ptr sz hw)
  show ?case
  proof (cases "ROW_SIZE fc < sz")
    case False
    then show ?thesis
      by (subst erase_rows.simps, subst (2) erase_rows.simps)
         (simp add: erase_row_flash_size)
  next
    case True
    show ?thesis
    proof (cases "FlashClass_erase_row fc ptr hw")
      case None
      with True show ?thesis
        by (subst erase_rows.simps, subst (2) erase_rows.simps)
           (simp add: erase_row_flash_size)
    next
      case (Some r)
      show ?thesis
      proof (cases "fst r")
        case False
        with True Some show ?thesis
          by (subst erase_rows.simps, subst (2) erase_rows.simps)
             (simp add: erase_row_flash_size)
      next
        case ok: True
        then have "\<not> \<not> fst r" by simp
        from "1.IH" [OF True Some this] True Some ok show ?thesis
          by (subst erase_rows.simps, subst (2) erase_rows.simps)
             (simp add: erase_row_flash_size)
      qed
    qed
  qed
qed

text \<open>
  C10. A region constructed with a null base address is not bounds-checked, whatever its
  declared length: every \<open>(ptr, size)\<close>, also one whose sum overflows the address width,
  passes the check; the read succeeds and copies the bytes, the write is never refused
  (and returns true on a region whose page holds a word), the erase is the erase of the
  rows; and read, write and erase behave exactly as on the same region with length zero.
\<close>

theorem null_base_unbounded:
  assumes "flash_address fc = 0"
  shows "isWithinBounds fc ptr sz \<and>
         FlashClass_read fc ptr sz hw \<noteq> None \<and>
         FlashClass_read fc ptr sz hw
           = Some (map (\<lambda>i. mem hw (ptr + of_nat i)) [0..<unat sz]) \<and>
         (\<forall>hw'. FlashClass_write fc ptr data sz hw \<noteq> Some (False, hw')) \<and>
         (4 \<le> PAGE_SIZE fc \<longrightarrow> (\<exists>hw'. FlashClass_write fc ptr data sz hw = Some (True, hw'))) \<and>
         FlashClass_erase fc ptr sz hw = erase_rows fc ptr sz hw \<and>
         FlashClass_read fc ptr sz hw = FlashClass_read (fc\<lparr>flash_size := 0\<rparr>) ptr sz hw \<and>
         FlashClass_write fc ptr data sz hw = FlashClass_write (fc\<lparr>flash_size := 0\<rparr>) ptr data sz hw \<and>
         FlashClass_erase fc ptr sz hw = FlashClass_erase (fc\<lparr>flash_size := 0\<rparr>) ptr sz hw"
proof -
  have a: "isWithinBounds fc ptr sz" using assms by (simp add: isWithinBounds_def)
  have b: "isWithinBounds (fc\<lparr>flash_size := 0\<rparr>) ptr sz" by (simp add: isWithinBounds_def)
  have r: "FlashClass_read fc ptr sz hw
             = Some (map (\<lambda>i. mem hw (ptr + of_nat i)) [0..<unat sz])"
    using a by (simp add: FlashClass_read_def)
  then have rn: "FlashClass_read fc ptr sz hw \<noteq> None" by simp
  have w: "\<forall>hw'. FlashClass_write fc ptr data sz hw \<noteq> Some (False, hw')"
    using a by (simp add: FlashClass_write_def split: option.splits)
  have wt: "\<exists>hw'. FlashClass_write fc ptr data sz hw = Some (True, hw')" if "4 \<le> PAGE_SIZE fc"
    using FlashClass_write_result [OF a that, of data hw] by blast
  have e: "FlashClass_erase fc ptr sz hw = erase_rows fc ptr sz hw"
    using a by (simp add: FlashClass_erase_def)
  have eqs: "FlashClass_read fc ptr sz hw = FlashClass_read (fc\<lparr>flash_size := 0\<rparr>) ptr sz hw"
    "FlashClass_write fc ptr data sz hw = FlashClass_write (fc\<lparr>flash_size := 0\<rparr>) ptr data sz hw"
    "FlashClass_erase fc ptr sz hw = FlashClass_erase (fc\<lparr>flash_size := 0\<rparr>) ptr sz hw"
    using a b
    by (simp_all add: FlashClass_read_def FlashClass_write_def FlashClass_erase_def
        erase_rows_flash_size)
  from a rn r w wt e eqs show ?thesis by blast
qed

theorem null_base_unbounded_witness:
  "flash_address (region_2000\<lparr>flash_address := 0\<rparr>) = 0 \<and>
   flash_size (region_2000\<lparr>flash_address := 0\<rparr>) \<noteq> 0 \<and>
   \<not> unat (0xFFFFFFF0 :: u32) + unat (0x100 :: u32) < 2 ^ 32 \<and>
   isWithinBounds (region_2000\<lparr>flash_address := 0\<rparr>) 0xFFFFFFF0 0x100 \<and>
   FlashClass_read (region_2000\<lparr>flash_address := 0\<rparr>) 0xFFFFFFF0 0x100 erased_hw \<noteq> None \<and>
   4 \<le> PAGE_SIZE (region_2000\<lparr>flash_address := 0\<rparr>) \<and>
   fst (the (FlashClass_write (region_2000\<lparr>flash_address := 0\<rparr>) 0xFFFFFFF0 zero_bytes 0x100
               erased_hw)) \<and>
   FlashClass_erase (region_2000\<lparr>flash_address := 0\<rparr>) 0xFFFFFFF0 0x100 erased_hw
     = erase_rows (region_2000\<lparr>flash_address := 0\<rparr>) 0xFFFFFFF0 0x100 erased_hw \<and>
   FlashClass_read (region_2000\<lparr>flash_address := 0\<rparr>) 0xFFFFFFF0 0x100 erased_hw
     = FlashClass_read (region_2000\<lparr>flash_address := 0, flash_size := 0\<rparr>) 0xFFFFFFF0 0x100 erased_hw"
proof -
  let ?fc = "region_2000\<lparr>flash_address := 0\<rparr>"
  have z: "flash_address ?fc = 0" by simp
  have p: "4 \<le> PAGE_SIZE ?fc" by (simp add: region_2000_fields)
  note n = null_base_unbounded [OF z, of "0xFFFFFFF0" "0x100" erased_hw zero_bytes]
  from n p have "\<exists>hw'. FlashClass_write ?fc 0xFFFFFFF0 zero_bytes 0x100 erased_hw = Some (True, hw')"
    by blast
  then have w: "fst (the (FlashClass_write ?fc 0xFFFFFFF0 zero_bytes 0x100 erased_hw))"
    by auto
  have s: "flash_size ?fc \<noteq> 0" "\<not> unat (0xFFFFFFF0 :: u32) + unat (0x100 :: u32) < 2 ^ 32"
    by (simp_all add: region_2000_fields)
  from n z p w s show ?thesis by blast
qed

section \<open>The erase loop\<close>

lemma erase_row_ok:
  assumes "FlashClass_erase_row fc ptr hw = Some (True, hw')"
  shows "ROW_SIZE fc \<noteq> 0" "ptr mod ROW_SIZE fc = 0" "hw' = hw_erase_row (ROW_SIZE fc) ptr hw"
  using assms by (auto simp: FlashClass_erase_row_def Let_def split: if_splits)

lemma erase_row_count_step:
  "0 < r \<Longrightarrow> r \<le> n \<Longrightarrow> erase_row_count n r = Suc (erase_row_count (n - r) r)"
  by (simp add: erase_row_count_def le_div_geq le_mod_geq)

lemma erase_row_count_last:
  "0 < n \<Longrightarrow> n \<le> r \<Longrightarrow> erase_row_count n r = 1"
  by (cases "n = r") (simp_all add: erase_row_count_def)

lemma map_upt_Suc_shift: "map f [0..<Suc n] = f 0 # map (\<lambda>i. f (Suc i)) [0..<n]"
  by (simp add: upt_conv_Cons map_Suc_upt [symmetric] del: upt_Suc)

lemma hw_erase_row_fields:
  "commands (hw_erase_row R p hw) = commands hw @ [CMD_ER p]"
  "variant (hw_erase_row R p hw) = variant hw" "PSZ (hw_erase_row R p hw) = PSZ hw"
  "NVMP (hw_erase_row R p hw) = NVMP hw"
  "mem (hw_erase_row R p hw) a = (if unat (a - p) < unat R then 0xFF else mem hw a)"
  by (simp_all add: hw_erase_row_def word_less_nat_alt)

lemma erase_rows_result:
  assumes "erase_rows fc ptr sz hw = Some (True, hw')"
  shows "commands hw' = commands hw @
           map (\<lambda>i. CMD_ER (ptr + of_nat i * ROW_SIZE fc))
             [0..<erase_row_count (unat sz) (unat (ROW_SIZE fc))] \<and>
         (\<forall>i < erase_row_count (unat sz) (unat (ROW_SIZE fc)).
            (ptr + of_nat i * ROW_SIZE fc) mod ROW_SIZE fc = 0) \<and>
         (\<forall>a. unat (a - ptr) < unat sz \<longrightarrow> mem hw' a = 0xFF) \<and>
         (\<forall>a. mem hw a = 0xFF \<longrightarrow> mem hw' a = 0xFF) \<and>
         (sz \<noteq> 0 \<longrightarrow> ROW_SIZE fc \<noteq> 0) \<and>
         variant hw' = variant hw \<and> PSZ hw' = PSZ hw \<and> NVMP hw' = NVMP hw"
  using assms
proof (induction fc ptr sz hw rule: erase_rows.induct)
  case (1 fc ptr sz hw)
  let ?R = "ROW_SIZE fc"
  let ?n = "unat sz" and ?r = "unat ?R"
  show ?case
  proof (cases "?R < sz")
    case True
    from "1.prems" True obtain r where
      er: "FlashClass_erase_row fc ptr hw = Some r" and ok: "fst r"
      and rec: "erase_rows fc (ptr + ?R) (sz - ?R) (snd r) = Some (True, hw')"
      by (subst (asm) erase_rows.simps) (auto split: option.splits if_splits)
    from er ok have er': "FlashClass_erase_row fc ptr hw = Some (True, snd r)"
      by (cases r) simp
    note e = erase_row_ok [OF er']
    let ?hw1 = "hw_erase_row ?R ptr hw"
    have s1: "snd r = ?hw1" by (rule e(3))
    have rpos: "0 < ?r" using e(1) by (simp add: unat_gt_0)
    have rn: "?r < ?n" using True by (simp add: word_less_nat_alt)
    have usub: "unat (sz - ?R) = ?n - ?r"
      using rn by (simp add: unat_sub word_le_nat_alt)
    have cnt: "erase_row_count ?n ?r = Suc (erase_row_count (?n - ?r) ?r)"
      using rpos rn by (simp add: erase_row_count_step)
    from ok have "\<not> \<not> fst r" by simp
    note ih = "1.IH" [OF True er this rec, unfolded s1 usub]
    have c: "commands hw' = commands hw @
           map (\<lambda>i. CMD_ER (ptr + of_nat i * ?R)) [0..<erase_row_count ?n ?r]"
      using ih unfolding cnt map_upt_Suc_shift
      by (simp add: hw_erase_row_fields algebra_simps)
    have al: "(ptr + of_nat i * ?R) mod ?R = 0" if "i < erase_row_count ?n ?r" for i
    proof (cases i)
      case 0
      then show ?thesis using e(2) by simp
    next
      case (Suc j)
      with that cnt have "j < erase_row_count (?n - ?r) ?r" by simp
      with ih have "(ptr + ?R + of_nat j * ?R) mod ?R = 0" by blast
      then show ?thesis using Suc by (simp add: algebra_simps)
    qed
    have cov: "mem hw' a = 0xFF" if "unat (a - ptr) < ?n" for a
    proof (cases "unat (a - ptr) < ?r")
      case True
      then have "mem ?hw1 a = 0xFF" by (simp add: hw_erase_row_fields)
      with ih show ?thesis by blast
    next
      case False
      then have "?R \<le> a - ptr" by (simp add: word_le_nat_alt)
      then have u: "unat (a - ptr - ?R) = unat (a - ptr) - ?r" by (simp add: unat_sub)
      have eq: "a - (ptr + ?R) = a - ptr - ?R" by simp
      have "unat (a - (ptr + ?R)) < ?n - ?r"
        unfolding eq u using that False by linarith
      with ih show ?thesis by blast
    qed
    have pres: "mem hw' a = 0xFF" if "mem hw a = 0xFF" for a
    proof -
      from that have "mem ?hw1 a = 0xFF" by (simp add: hw_erase_row_fields)
      with ih show ?thesis by blast
    qed
    from c al cov pres e(1) ih show ?thesis
      by (simp add: hw_erase_row_fields)
  next
    case False
    show ?thesis
    proof (cases "0 < sz")
      case True
      with False "1.prems" have er: "FlashClass_erase_row fc ptr hw = Some (True, hw')"
        by (subst (asm) erase_rows.simps) simp
      note e = erase_row_ok [OF er]
      have "0 < ?n" "?n \<le> ?r"
        using True False by (simp_all add: word_less_nat_alt word_le_nat_alt not_less)
      then have cnt: "erase_row_count ?n ?r = 1" by (rule erase_row_count_last)
      have cov: "mem hw' a = 0xFF" if "unat (a - ptr) < ?n" for a
        using that \<open>?n \<le> ?r\<close> by (simp add: e(3) hw_erase_row_fields)
      show ?thesis
        using e(1,2) cov by (simp add: cnt e(3) hw_erase_row_fields)
    next
      case z: False
      then have "sz = 0" by (simp add: word_greater_zero_iff)
      with False "1.prems" have "hw' = hw"
        by (subst (asm) erase_rows.simps) simp
      with \<open>sz = 0\<close> show ?thesis by (simp add: erase_row_count_def)
    qed
  qed
qed

lemma erase_row_count_bound:
  assumes "i < erase_row_count n r" "0 < r"
  shows "i * r < n"
proof (cases "0 < n mod r")
  case True
  with assms have "i \<le> n div r" by (simp add: erase_row_count_def)
  then have "i * r \<le> (n div r) * r" by simp
  also have "\<dots> < n" using True by (metis div_mult_mod_eq less_add_same_cancel1)
  finally show ?thesis .
next
  case False
  with assms have "Suc i \<le> n div r" by (simp add: erase_row_count_def)
  then have "Suc i * r \<le> (n div r) * r" using mult_le_mono1 by blast
  also have "\<dots> \<le> n" by simp
  finally show ?thesis using assms(2) by simp
qed

lemma erase_row_count_cover:
  assumes "j < n" "0 < r"
  shows "j div r < erase_row_count n r"
proof (cases "0 < n mod r")
  case True
  have "j div r \<le> n div r" using assms(1) by (simp add: div_le_mono)
  with True show ?thesis by (simp add: erase_row_count_def)
next
  case False
  then have "n = (n div r) * r" using div_mult_mod_eq [of n r] by simp
  with assms have "j < (n div r) * r" by simp
  then have "j div r < n div r" using assms(2) by (simp add: less_mult_imp_div_less)
  with False show ?thesis by (simp add: erase_row_count_def)
qed

lemma row_addresses_distinct:
  fixes p R :: u32
  assumes "n < 4294967296" "R \<noteq> 0"
  shows "distinct (map (\<lambda>i. p + of_nat i * R) [0..<erase_row_count n (unat R)])"
proof -
  have r: "0 < unat R" using assms(2) by (simp add: unat_gt_0)
  have u: "unat (of_nat i * R) = i * unat R" if "i < erase_row_count n (unat R)" for i
  proof -
    have "i * unat R < 4294967296"
      using erase_row_count_bound [OF that r] assms(1) by simp
    moreover have "of_nat i * R = (of_nat (i * unat R) :: u32)" by simp
    ultimately show ?thesis by (simp only: unat_of_nat) simp
  qed
  have "inj_on (\<lambda>i. p + of_nat i * R) (set [0..<erase_row_count n (unat R)])"
  proof (rule inj_onI)
    fix i j
    assume i: "i \<in> set [0..<erase_row_count n (unat R)]"
      and j: "j \<in> set [0..<erase_row_count n (unat R)]"
      and eq: "p + of_nat i * R = p + of_nat j * R"
    from eq have "unat (of_nat i * R) = unat (of_nat j * R)" by simp
    with i j have "i * unat R = j * unat R" by (simp add: u)
    with r show "i = j" by simp
  qed
  then show ?thesis by (simp add: distinct_map)
qed

text \<open>
  C5. A successful \<^verbatim>\<open>erase(p, n)\<close> on a region with row size \<open>R\<close>, where \<open>n = k * R + r\<close>
  with \<open>0 \<le> r < R\<close>, issues exactly \<open>k + (1 if r > 0 else 0)\<close> row-erase commands and no
  other command; they target the row-aligned addresses \<open>p, p + R, \<dots>\<close> in this order, no
  address twice, every offset of \<open>[0, n)\<close> lies in one of the rows, and every byte of
  \<open>[p, p + n)\<close> is erased afterwards.
\<close>

theorem erase_decomposition:
  assumes "FlashClass_erase fc p n hw = Some (True, hw')"
  shows "commands hw' = commands hw @
           map (\<lambda>i. CMD_ER (p + of_nat i * ROW_SIZE fc))
             [0..<erase_row_count (unat n) (unat (ROW_SIZE fc))] \<and>
         (\<forall>i < erase_row_count (unat n) (unat (ROW_SIZE fc)).
            (p + of_nat i * ROW_SIZE fc) mod ROW_SIZE fc = 0) \<and>
         distinct (map (\<lambda>i. p + of_nat i * ROW_SIZE fc)
           [0..<erase_row_count (unat n) (unat (ROW_SIZE fc))]) \<and>
         (\<forall>j < unat n. \<exists>i < erase_row_count (unat n) (unat (ROW_SIZE fc)).
            i * unat (ROW_SIZE fc) \<le> j \<and> j < (i + 1) * unat (ROW_SIZE fc)) \<and>
         (\<forall>j < unat n. mem hw' (p + of_nat j) = 0xFF)"
proof -
  let ?R = "ROW_SIZE fc"
  let ?N = "erase_row_count (unat n) (unat ?R)"
  from assms have rows: "erase_rows fc p n hw = Some (True, hw')"
    by (auto simp: FlashClass_erase_def split: if_splits)
  note res = erase_rows_result [OF rows]
  have d: "distinct (map (\<lambda>i. p + of_nat i * ?R) [0..<?N])"
  proof (cases "n = 0")
    case True
    then show ?thesis by (simp add: erase_row_count_def)
  next
    case False
    with res have "?R \<noteq> 0" by blast
    then show ?thesis using row_addresses_distinct [OF unat_u32_bound] by blast
  qed
  have cov: "\<exists>i < ?N. i * unat ?R \<le> j \<and> j < (i + 1) * unat ?R" if "j < unat n" for j
  proof -
    from that have "n \<noteq> 0" by (auto simp: unat_gt_0 [symmetric])
    with res have "?R \<noteq> 0" by blast
    then have r: "0 < unat ?R" by (simp add: unat_gt_0)
    have "j div unat ?R < ?N" using that r by (rule erase_row_count_cover)
    moreover have "(j div unat ?R) * unat ?R \<le> j" by simp
    moreover have "j < (j div unat ?R + 1) * unat ?R"
      using r by (metis Suc_eq_plus1 dividend_less_div_times mult.commute mult_Suc)
    ultimately show ?thesis by blast
  qed
  have er: "mem hw' (p + of_nat j) = 0xFF" if "j < unat n" for j
  proof -
    have "j < 4294967296" using that unat_u32_bound [of n] by simp
    then have "unat (p + of_nat j - p) = j" by (simp add: unat_of_nat)
    with that res show ?thesis by simp
  qed
  from res d cov er show ?thesis by blast
qed

lemma example_erase:
  "\<exists>hw'. FlashClass_erase (region_2000\<lparr>flash_size := 1024\<rparr>) 0x2000 600 erased_hw = Some (True, hw')"
  by (simp add: FlashClass_erase_def isWithinBounds_def region_2000_fields erase_rows.simps
      FlashClass_erase_row_def hw_erase_row_fields erased_hw_def)

theorem erase_decomposition_witness:
  "FlashClass_erase (region_2000\<lparr>flash_size := 1024\<rparr>) 0x2000 600 erased_hw =
     Some (True, snd (the (FlashClass_erase (region_2000\<lparr>flash_size := 1024\<rparr>) 0x2000 600 erased_hw))) \<and>
   erase_row_count (unat (600 :: u32)) (unat (ROW_SIZE (region_2000\<lparr>flash_size := 1024\<rparr>))) = 2 + 1 \<and>
   commands (snd (the (FlashClass_erase (region_2000\<lparr>flash_size := 1024\<rparr>) 0x2000 600 erased_hw)))
     = [CMD_ER 0x2000, CMD_ER 0x2100, CMD_ER 0x2200] \<and>
   (0x2200 :: u32) mod ROW_SIZE (region_2000\<lparr>flash_size := 1024\<rparr>) = 0 \<and>
   (599 :: nat) < unat (600 :: u32) \<and>
   mem (snd (the (FlashClass_erase (region_2000\<lparr>flash_size := 1024\<rparr>) 0x2000 600 erased_hw)))
     (0x2000 + of_nat 599) = 0xFF"
proof -
  let ?fc = "region_2000\<lparr>flash_size := 1024\<rparr>"
  let ?hw = "snd (the (FlashClass_erase ?fc 0x2000 600 erased_hw))"
  have e: "FlashClass_erase ?fc 0x2000 600 erased_hw = Some (True, ?hw)"
    using example_erase by auto
  have n: "erase_row_count (unat (600 :: u32)) (unat (ROW_SIZE ?fc)) = 3"
    by (simp add: erase_row_count_def region_2000_fields)
  have l: "[0..<3] = [0, 1, 2]" by (simp add: upt_conv_Cons)
  from erase_decomposition [OF e] have
    c: "commands ?hw = commands erased_hw @ map (\<lambda>i. CMD_ER (0x2000 + of_nat i * ROW_SIZE ?fc)) [0..<3]"
    and m: "\<forall>j < unat (600 :: u32). mem ?hw (0x2000 + of_nat j) = 0xFF"
    unfolding n by blast+
  from c have c': "commands ?hw = [CMD_ER 0x2000, CMD_ER 0x2100, CMD_ER 0x2200]"
    unfolding l by (simp add: region_2000_fields erased_hw_def)
  from m have "(599 :: nat) < unat (600 :: u32) \<longrightarrow> mem ?hw (0x2000 + of_nat 599) = 0xFF"
    by (rule spec)
  then have m': "mem ?hw (0x2000 + of_nat 599) = 0xFF" by simp
  from e n c' m' show ?thesis by (simp add: region_2000_fields)
qed

section \<open>The stored record\<close>

lemma align_up_ge: "0 < a \<Longrightarrow> n \<le> align_up n a"
proof -
  assume a: "0 < a"
  have "n + a - 1 = (n + a - 1) div a * a + (n + a - 1) mod a" by simp
  moreover have "(n + a - 1) mod a \<le> a - 1" using a by (simp add: Suc_leI less_Suc_eq_le [symmetric])
  ultimately have "n + a - 1 \<le> (n + a - 1) div a * a + (a - 1)" by linarith
  then show ?thesis using a by (simp add: align_up_def)
qed

lemma load_store_u16: "load_u16 (xs @ store_u16 w @ ys) (length xs) = w"
proof -
  have "ucast (ucast w :: u8) OR push_bit 8 (ucast (ucast (drop_bit 8 w) :: u8)) = w"
    by (rule bit_word_eqI) (auto simp: bit_simps)
  then show ?thesis
    by (simp add: load_u16_def store_u16_def nth_append)
qed

lemma take_drop_middle:
  "length pre = k \<Longrightarrow> take (length d) (drop k (pre @ d @ post)) = d"
  by simp

lemma layout_order:
  assumes "0 < align_of T"
  shows "2 \<le> offsetof_data T" "offsetof_data T + size_of T \<le> offsetof_checksum T"
    "offsetof_checksum T + 2 \<le> sizeof_StorageFormat T"
  using assms
  by (simp_all add: offsetof_data_def offsetof_checksum_def sizeof_StorageFormat_def align_up_ge)

lemma length_StorageFormat_bytes:
  assumes "0 < align_of T" "length data = size_of T"
  shows "length (StorageFormat_bytes T h data c) = sizeof_StorageFormat T"
  using layout_order [OF assms(1)] assms(2)
  by (simp add: StorageFormat_bytes_def store_u16_def)

lemma StorageFormat_members:
  assumes "0 < align_of T" "length data = size_of T"
  shows "pkg_id_hash (StorageFormat_bytes T h data c) = h"
    "pkg_data T (StorageFormat_bytes T h data c) = data"
    "pkg_checksum T (StorageFormat_bytes T h data c) = c"
proof -
  note lo = layout_order [OF assms(1)]
  show "pkg_id_hash (StorageFormat_bytes T h data c) = h"
    using load_store_u16 [of "[]" h] by (simp add: pkg_id_hash_def StorageFormat_bytes_def)
  have "length (store_u16 h @ replicate (offsetof_data T - 2) 0) = offsetof_data T"
    using lo by (simp add: store_u16_def)
  from take_drop_middle [OF this, of data]
  show "pkg_data T (StorageFormat_bytes T h data c) = data"
    unfolding pkg_data_def StorageFormat_bytes_def append_assoc assms(2) .
  let ?pre = "store_u16 h @ replicate (offsetof_data T - 2) 0 @ data @
      replicate (offsetof_checksum T - (offsetof_data T + size_of T)) 0"
  have "length ?pre = offsetof_checksum T"
    using lo assms(2) by (simp add: store_u16_def)
  then show "pkg_checksum T (StorageFormat_bytes T h data c) = c"
    using load_store_u16 [of ?pre c] by (simp add: pkg_checksum_def StorageFormat_bytes_def)
qed

lemma page_size_ge_4: "4 \<le> pageSizes ! unat (x :: 3 word)"
proof -
  have "unat x < 8" using unsigned_less [of x, where 'a = nat] by simp
  then have "unat x \<in> {0, 1, 2, 3, 4, 5, 6, 7}" by auto
  then show ?thesis by (auto simp: pageSizes_def)
qed

lemma erased_and: "(0xFF :: u8) AND x = x"
proof -
  have "(0xFF :: u8) = - 1" by simp
  then show ?thesis by (simp only: and.left_neutral)
qed

lemma ctor_fields:
  "flash_address (flash (FlashStorageClass_ctor T hw0 addr vh)) = addr"
  "flash_size (flash (FlashStorageClass_ctor T hw0 addr vh)) = of_nat (sizeof_StorageFormat T)"
  "variable_hash (FlashStorageClass_ctor T hw0 addr vh) = vh"
  "4 \<le> PAGE_SIZE (flash (FlashStorageClass_ctor T hw0 addr vh))"
  by (simp_all add: FlashStorageClass_ctor_def FlashClass_ctor_def Let_def page_size_ge_4)

lemma read_all_bytes:
  assumes "FlashClass_read_all fc hw = Some bs"
  shows "bs = map (\<lambda>i. mem hw (flash_address fc + of_nat i)) [0..<unat (flash_size fc)]"
    and "isWithinBounds fc (flash_address fc) (flash_size fc)"
  using assms by (auto simp: FlashClass_read_all_def FlashClass_read_def split: if_splits)

lemma read_all_ok:
  assumes "isWithinBounds fc (flash_address fc) (flash_size fc)"
  shows "FlashClass_read_all fc hw =
           Some (map (\<lambda>i. mem hw (flash_address fc + of_nat i)) [0..<unat (flash_size fc)])"
  using assms by (simp add: FlashClass_read_all_def FlashClass_read_def)

lemma length_copy_T: "length (copy_T T pad v) = size_of T"
  by (simp add: copy_T_def)

lemma copy_T_nth:
  "i < size_of T \<Longrightarrow> copy_T T pad v ! i = (if i \<in> padding_of T then pad i else v ! i)"
  by (simp add: copy_T_def)

lemma copy_T_copy: "copy_T T pad' (copy_T T pad v) = copy_T T pad' v"
  by (simp add: copy_T_def)

lemma copy_T_no_padding:
  assumes "padding_of T = {}" "length v = size_of T"
  shows "copy_T T pad v = v"
proof -
  have "copy_T T pad v = map (\<lambda>i. v ! i) [0..<length v]"
    using assms by (simp add: copy_T_def)
  then show ?thesis by (simp only: map_nth)
qed

lemma typed_write_stored:
  assumes len: "length v = size_of T" and al: "0 < align_of T"
    and sz: "sizeof_StorageFormat T + 3 < 2 ^ 32"
    and w: "FlashStorageClass_write T (FlashStorageClass_ctor T hw0 addr vh) v pad stack hw
              = Some (True, hw')"
  shows "FlashClass_read_all (flash (FlashStorageClass_ctor T hw0 addr vh)) hw' =
           Some (StorageFormat_bytes T vh (copy_T T pad v) (calcChecksum (copy_T T pad v) (size_of T)))"
proof -
  let ?fs = "FlashStorageClass_ctor T hw0 addr vh"
  let ?fc = "flash ?fs"
  let ?n = "sizeof_StorageFormat T"
  let ?pkg = "StorageFormat_bytes T vh (copy_T T pad v) (calcChecksum (copy_T T pad v) (size_of T))"
  let ?src = "\<lambda>i. if i < length ?pkg then ?pkg ! i else stack (i - length ?pkg)"
  have lp: "length ?pkg = ?n" using al length_copy_T by (rule length_StorageFormat_bytes)
  have un: "unat (flash_size ?fc) = ?n"
    using sz by (simp add: ctor_fields unat_of_nat)
  show ?thesis
  proof (cases "FlashClass_read_all ?fc hw = Some ?pkg")
    case True
    then have "FlashStorageClass_write T ?fs v pad stack hw = Some (True, hw)"
      by (simp add: FlashStorageClass_write_def ctor_fields)
    with w True show ?thesis by simp
  next
    case False
    have neq: "take ?n ?pkg \<noteq> take ?n existing" if "FlashClass_read_all ?fc hw = Some existing"
      for existing
    proof -
      from read_all_bytes(1) [OF that] have "length existing = ?n" by (simp add: un)
      with lp False that show ?thesis by auto
    qed
    from w neq obtain r where
      er: "FlashClass_erase_all ?fc hw = Some r" and ok: "fst r"
      and wr: "FlashClass_write_all ?fc ?src (snd r) = Some (True, hw')"
      by (auto simp: FlashStorageClass_write_def ctor_fields Let_def
          split: option.splits if_splits)
    from er ok have er': "FlashClass_erase ?fc addr (of_nat ?n) hw = Some (True, snd r)"
      by (cases r) (simp add: FlashClass_erase_all_def ctor_fields)
    have b: "isWithinBounds ?fc (flash_address ?fc) (flash_size ?fc)"
      using erase_ok_bounds [OF er'] by (simp add: ctor_fields)
    from er' have rows: "erase_rows ?fc addr (of_nat ?n) hw = Some (True, snd r)"
      by (auto simp: FlashClass_erase_def split: if_splits)
    from erase_rows_result [OF rows]
    have erased: "\<And>a. unat (a - addr) < ?n \<Longrightarrow> mem (snd r) a = 0xFF"
      using un by (simp add: ctor_fields)
    from wr have wr': "FlashClass_write ?fc addr ?src (of_nat ?n) (snd r) = Some (True, hw')"
      by (simp add: FlashClass_write_all_def ctor_fields)
    from FlashClass_write_result [OF write_ok_bounds [OF wr'] ctor_fields(4), of ?src "snd r"] wr'
    have m: "mem hw' = (\<lambda>a. if unat (a - addr) < 4 * unat ((of_nat ?n + 3 :: u32) div 4)
                         then mem (snd r) a AND ?src (unat (a - addr)) else mem (snd r) a)"
      by auto
    have n4: "4 * unat ((of_nat ?n + 3 :: u32) div 4) = 4 * ((?n + 3) div 4)"
      using words_round_up [of "of_nat ?n"] sz un by (simp add: ctor_fields)
    have byte: "mem hw' (addr + of_nat i) = ?pkg ! i" if "i < ?n" for i
    proof -
      have "i < 4294967296" using that sz by simp
      then have u: "unat (addr + of_nat i - addr) = i" by (simp add: unat_of_nat)
      have "i < 4 * ((?n + 3) div 4)" using that by linarith
      with that u erased [of "addr + of_nat i"] show ?thesis
        by (simp add: m n4 lp erased_and)
    qed
    have "map (\<lambda>i. mem hw' (addr + of_nat i)) [0..<?n] = map (\<lambda>i. ?pkg ! i) [0..<?n]"
      using byte by simp
    also have "\<dots> = ?pkg" using map_nth [of ?pkg] unfolding lp .
    finally show ?thesis
      using read_all_ok [OF b, of hw'] un by (simp add: ctor_fields)
  qed
qed

section \<open>Typed write and read\<close>

lemma typed_write_returns:
  assumes "FlashClass_erase_all (flash (FlashStorageClass_ctor T hw0 addr vh)) hw = Some (True, hw1)"
  shows "\<exists>hw'. FlashStorageClass_write T (FlashStorageClass_ctor T hw0 addr vh) v pad stack hw
           = Some (True, hw')"
proof -
  let ?fc = "flash (FlashStorageClass_ctor T hw0 addr vh)"
  from assms have "isWithinBounds ?fc (flash_address ?fc) (flash_size ?fc)"
    by (auto simp: FlashClass_erase_all_def dest: erase_ok_bounds)
  from FlashClass_write_result [OF this ctor_fields(4)] assms show ?thesis
    by (auto simp: FlashStorageClass_write_def Let_def FlashClass_write_all_def)
qed

lemma typed_read_stored:
  assumes "0 < align_of T" and "length d = size_of T"
    and "FlashClass_read_all (flash fs) hw
           = Some (StorageFormat_bytes T (variable_hash fs) d (calcChecksum d (size_of T)))"
  shows "FlashStorageClass_read T fs old pad hw = (True, copy_T T pad d)"
  using assms(3) StorageFormat_members [OF assms(1,2)]
  by (simp add: FlashStorageClass_read_def)

text \<open>
  C2 (amended). For every value \<open>v\<close> of a type \<^verbatim>\<open>T\<close> (whose record fits the 32-bit size
  arithmetic of the driver): after \<^verbatim>\<open>write(v)\<close> of a constructed store returns true, a read
  in the resulting state, with nothing modifying the stored bytes in between, returns true
  and yields a value that agrees with \<open>v\<close> on every byte that is not padding of \<^verbatim>\<open>T\<close>; for a
  \<^verbatim>\<open>T\<close> without internal padding it is byte-identical to \<open>v\<close>.
\<close>

theorem write_read_roundtrip:
  assumes "length v = size_of T" and "0 < align_of T"
    and "sizeof_StorageFormat T + 3 < 2 ^ 32"
    and "FlashStorageClass_write T (FlashStorageClass_ctor T hw0 addr vh) v pad stack hw
           = Some (True, hw')"
  shows "FlashStorageClass_read T (FlashStorageClass_ctor T hw0 addr vh) old pad' hw'
           = (True, copy_T T pad' v) \<and>
         (\<forall>i < size_of T. i \<notin> padding_of T \<longrightarrow>
            snd (FlashStorageClass_read T (FlashStorageClass_ctor T hw0 addr vh) old pad' hw') ! i
              = v ! i) \<and>
         (padding_of T = {} \<longrightarrow>
            FlashStorageClass_read T (FlashStorageClass_ctor T hw0 addr vh) old pad' hw'
              = (True, v))"
proof -
  let ?fs = "FlashStorageClass_ctor T hw0 addr vh"
  have "FlashClass_read_all (flash ?fs) hw' =
          Some (StorageFormat_bytes T (variable_hash ?fs) (copy_T T pad v)
                 (calcChecksum (copy_T T pad v) (size_of T)))"
    using typed_write_stored [OF assms] by (simp add: ctor_fields)
  from typed_read_stored [OF assms(2) length_copy_T this, of old pad']
  have r: "FlashStorageClass_read T ?fs old pad' hw' = (True, copy_T T pad' v)"
    by (simp add: copy_T_copy)
  then have "snd (FlashStorageClass_read T ?fs old pad' hw') ! i = v ! i"
    if "i < size_of T" "i \<notin> padding_of T" for i
    using that by (simp add: copy_T_nth)
  moreover have "FlashStorageClass_read T ?fs old pad' hw' = (True, v)" if "padding_of T = {}"
    using r copy_T_no_padding [OF that assms(1)] by simp
  ultimately show ?thesis using r by blast
qed

lemma uint16_T_layout:
  "size_of uint16_T = 2" "align_of uint16_T = 2" "offsetof_data uint16_T = 2"
  "offsetof_checksum uint16_T = 4" "sizeof_StorageFormat uint16_T = 6"
  "padding_of uint16_T = {}"
  by (simp_all add: uint16_T_def offsetof_data_def offsetof_checksum_def
      sizeof_StorageFormat_def align_up_def)

lemma uint16_T_ok:
  "length [0x34, 0x12 :: u8] = size_of uint16_T" "0 < align_of uint16_T"
  "sizeof_StorageFormat uint16_T + 3 < 2 ^ 32"
  by (simp_all add: uint16_T_layout)

lemma uint16_T_copy: "copy_T uint16_T pad [0x34, 0x12] = [0x34, 0x12]"
  by (rule copy_T_no_padding) (simp_all add: uint16_T_layout)

lemma store_a_erase:
  "FlashClass_erase_all (flash store_a) erased_hw
     = Some (True, hw_erase_row 256 0x2000 erased_hw)"
  by (simp add: store_a_def FlashClass_erase_all_def FlashClass_erase_def isWithinBounds_def
      FlashStorageClass_ctor_def FlashClass_ctor_def uint16_T_layout erase_rows.simps
      FlashClass_erase_row_def erased_hw_def pageSizes_def)

lemma store_a_written:
  "FlashStorageClass_write uint16_T store_a [0x34, 0x12] zero_bytes zero_bytes erased_hw
     = Some (True, stored_hw)"
  using typed_write_returns [OF store_a_erase [unfolded store_a_def], of "[0x34, 0x12]"
      zero_bytes zero_bytes]
  by (auto simp: stored_hw_def store_a_def)

lemma padded_T_layout:
  "size_of padded_T = 8" "align_of padded_T = 4" "offsetof_data padded_T = 4"
  "offsetof_checksum padded_T = 12" "sizeof_StorageFormat padded_T = 16"
  "padding_of padded_T = {1, 2, 3}"
  by (simp_all add: padded_T_def offsetof_data_def offsetof_checksum_def
      sizeof_StorageFormat_def align_up_def)

lemma padded_T_ok:
  "length padded_value = size_of padded_T" "0 < align_of padded_T"
  "sizeof_StorageFormat padded_T + 3 < 2 ^ 32"
  by (simp_all add: padded_T_layout padded_value_def)

lemma padded_copy:
  "copy_T padded_T zero_bytes padded_value = [0x11, 0, 0, 0, 0x78, 0x56, 0x34, 0x12]"
  by (simp add: copy_T_def padded_T_layout padded_value_def zero_bytes_def upt_conv_Cons)

lemma store_p_erase:
  "FlashClass_erase_all (flash store_p) erased_hw
     = Some (True, hw_erase_row 256 0x2000 erased_hw)"
  by (simp add: store_p_def FlashClass_erase_all_def FlashClass_erase_def isWithinBounds_def
      FlashStorageClass_ctor_def FlashClass_ctor_def padded_T_layout erase_rows.simps
      FlashClass_erase_row_def erased_hw_def pageSizes_def)

lemma store_p_written:
  "FlashStorageClass_write padded_T store_p padded_value zero_bytes zero_bytes erased_hw
     = Some (True, padded_hw)"
  using typed_write_returns [OF store_p_erase [unfolded store_p_def], of padded_value
      zero_bytes zero_bytes]
  by (auto simp: padded_hw_def store_p_def)

lemma store_p_read:
  "FlashStorageClass_read padded_T store_p old zero_bytes padded_hw
     = (True, [0x11, 0, 0, 0, 0x78, 0x56, 0x34, 0x12])"
proof -
  have "FlashClass_read_all (flash store_p) padded_hw =
          Some (StorageFormat_bytes padded_T (variable_hash store_p)
                 (copy_T padded_T zero_bytes padded_value)
                 (calcChecksum (copy_T padded_T zero_bytes padded_value) (size_of padded_T)))"
    using typed_write_stored [OF padded_T_ok store_p_written [unfolded store_p_def]]
    by (simp add: store_p_def ctor_fields)
  from typed_read_stored [OF padded_T_ok(2) length_copy_T this, of old zero_bytes]
  have "FlashStorageClass_read padded_T store_p old zero_bytes padded_hw
          = (True, copy_T padded_T zero_bytes padded_value)"
    unfolding copy_T_copy .
  then show ?thesis unfolding padded_copy .
qed

text \<open>
  C2 as stated fails for a type with internal padding: the value \<open>11 CC CC CC 78 56 34 12\<close>
  is written with copies that zero the padding, the write returns true, and the read
  returns \<open>11 00 00 00 78 56 34 12\<close>, which is not byte-identical to what was written.
\<close>

theorem write_read_roundtrip_counterexample:
  "length padded_value = size_of padded_T \<and>
   FlashStorageClass_write padded_T store_p padded_value zero_bytes zero_bytes erased_hw
     = Some (True, padded_hw) \<and>
   FlashStorageClass_read padded_T store_p [0, 0, 0, 0, 0, 0, 0, 0] zero_bytes padded_hw
     = (True, [0x11, 0, 0, 0, 0x78, 0x56, 0x34, 0x12]) \<and>
   [0x11, 0, 0, 0, 0x78, 0x56, 0x34, 0x12] \<noteq> padded_value"
  using padded_T_ok(1) store_p_written store_p_read [of "[0, 0, 0, 0, 0, 0, 0, 0]"]
  by (simp add: padded_value_def)

theorem write_read_roundtrip_witness:
  "length [0x34, 0x12 :: u8] = size_of uint16_T \<and> 0 < align_of uint16_T \<and>
   sizeof_StorageFormat uint16_T + 3 < 2 ^ 32 \<and>
   FlashStorageClass_write uint16_T store_a [0x34, 0x12] zero_bytes zero_bytes erased_hw
     = Some (True, stored_hw) \<and>
   padding_of uint16_T = {} \<and>
   FlashStorageClass_read uint16_T store_a [0, 0] zero_bytes stored_hw = (True, [0x34, 0x12]) \<and>
   length padded_value = size_of padded_T \<and> 0 < align_of padded_T \<and>
   sizeof_StorageFormat padded_T + 3 < 2 ^ 32 \<and>
   FlashStorageClass_write padded_T store_p padded_value zero_bytes zero_bytes erased_hw
     = Some (True, padded_hw) \<and>
   (4 :: nat) < size_of padded_T \<and> (4 :: nat) \<notin> padding_of padded_T \<and>
   snd (FlashStorageClass_read padded_T store_p [0, 0, 0, 0, 0, 0, 0, 0] zero_bytes padded_hw) ! 4
     = padded_value ! 4"
proof -
  note a = write_read_roundtrip [OF uint16_T_ok store_a_written [unfolded store_a_def],
      of "[0, 0]" zero_bytes, folded store_a_def]
  note p = write_read_roundtrip [OF padded_T_ok store_p_written [unfolded store_p_def],
      of "[0, 0, 0, 0, 0, 0, 0, 0]" zero_bytes, folded store_p_def]
  have u: "padding_of uint16_T = {}" by (simp add: uint16_T_layout)
  have i: "(4 :: nat) < size_of padded_T" "(4 :: nat) \<notin> padding_of padded_T"
    by (simp_all add: padded_T_layout)
  from a u have "FlashStorageClass_read uint16_T store_a [0, 0] zero_bytes stored_hw
                   = (True, [0x34, 0x12])" by blast
  moreover from p i
  have "snd (FlashStorageClass_read padded_T store_p [0, 0, 0, 0, 0, 0, 0, 0] zero_bytes padded_hw) ! 4
     = padded_value ! 4" by blast
  ultimately show ?thesis
    using uint16_T_ok padded_T_ok store_a_written store_p_written u i by blast
qed




lemma stored_hw_record:
  "FlashClass_read_all (flash store_a) stored_hw =
     Some (StorageFormat_bytes uint16_T (hash_variable ''a'' 2) [0x34, 0x12]
            (calcChecksum [0x34, 0x12] (size_of uint16_T)))"
  using typed_write_stored [OF uint16_T_ok store_a_written [unfolded store_a_def]]
  by (simp add: store_a_def uint16_T_copy)




section \<open>Corruption detection\<close>

lemma fold_involution: "(x XOR drop_bit 8 x) XOR drop_bit 8 (x XOR drop_bit 8 x) = (x :: u16)"
  by (rule bit_word_eqI) (auto simp: bit_simps)

lemma mix_inj: "x XOR drop_bit 8 x = y XOR drop_bit 8 y \<Longrightarrow> x = (y :: u16)"
  by (metis fold_involution)

lemma ucast_u8_u16_inj: "(ucast (a :: u8) :: u16) = ucast b \<Longrightarrow> a = b"
proof -
  assume "(ucast a :: u16) = ucast b"
  then have "(ucast (ucast a :: u16) :: u8) = ucast (ucast b :: u16)" by simp
  moreover have "(ucast (ucast c :: u16) :: u8) = c" for c :: u8
    by (rule bit_word_eqI) (auto simp: bit_simps)
  ultimately show ?thesis by simp
qed

lemma checksum_step_inj_sum: "checksum_step b s = checksum_step b s' \<Longrightarrow> s = s'"
  by (auto simp: checksum_step_def Let_def dest!: mix_inj)

lemma checksum_step_inj_byte: "checksum_step b s = checksum_step b' s \<Longrightarrow> b = b'"
  by (auto simp: checksum_step_def Let_def dest!: mix_inj ucast_u8_u16_inj)

lemma fold_checksum_inj:
  "fold checksum_step xs s = fold checksum_step xs s' \<Longrightarrow> s = s'"
  by (induction xs arbitrary: s s') (auto dest: checksum_step_inj_sum)

lemma fold_checksum_change:
  "i < length xs \<Longrightarrow> x \<noteq> xs ! i \<Longrightarrow>
     fold checksum_step (xs[i := x]) s \<noteq> fold checksum_step xs s"
proof (induction xs arbitrary: i s)
  case Nil
  then show ?case by simp
next
  case (Cons y ys)
  show ?case
  proof (cases i)
    case 0
    with Cons.prems have "x \<noteq> y" by simp
    then have "checksum_step x s \<noteq> checksum_step y s"
      using checksum_step_inj_byte by blast
    then show ?thesis using 0 fold_checksum_inj by auto
  next
    case (Suc j)
    with Cons show ?thesis by simp
  qed
qed

lemma calcChecksum_change:
  assumes "i < length xs" "x \<noteq> xs ! i"
  shows "calcChecksum (xs[i := x]) (length xs) \<noteq> calcChecksum xs (length xs)"
  using fold_checksum_change [OF assms] by (simp add: calcChecksum_def)

lemma flip_bit_changes: "b < 8 \<Longrightarrow> flip_bit b x \<noteq> (x :: u8)"
proof
  assume b: "b < 8" and "flip_bit b x = x"
  then have "bit (flip_bit b x) b = bit x b" by simp
  with b show False by (simp add: bit_flip_bit_iff)
qed

lemma load_u16_parts:
  "(ucast (ucast (a :: u8) OR push_bit 8 (ucast (b :: u8)) :: u16) :: u8) = a"
  "(ucast (drop_bit 8 (ucast (a :: u8) OR push_bit 8 (ucast (b :: u8)) :: u16)) :: u8) = b"
  by (rule bit_word_eqI; auto simp: bit_simps dest: bit_imp_le_length)+

lemma load_u16_inj:
  assumes "load_u16 bs off = load_u16 bs' off"
  shows "bs ! off = bs' ! off" "bs ! (off + 1) = bs' ! (off + 1)"
  using assms load_u16_parts unfolding load_u16_def by metis+

lemma of_nat_u32_eq:
  assumes "k < 4294967296" "i < 4294967296" "(of_nat k :: u32) = of_nat i"
  shows "k = i"
proof -
  from assms(3) have "unat (of_nat k :: u32) = unat (of_nat i :: u32)" by simp
  with assms(1,2) show ?thesis by (simp add: unat_of_nat)
qed

lemma flipped_bytes:
  assumes "i < n" "n < 4294967296"
  shows "map (\<lambda>k. mem (flip_stored_bit (addr + of_nat i) b hw) (addr + of_nat k)) [0..<n] =
         (map (\<lambda>k. mem hw (addr + of_nat k)) [0..<n])
           [i := flip_bit b (map (\<lambda>k. mem hw (addr + of_nat k)) [0..<n] ! i)]"
proof (rule nth_equalityI)
  show "length (map (\<lambda>k. mem (flip_stored_bit (addr + of_nat i) b hw) (addr + of_nat k)) [0..<n]) =
        length ((map (\<lambda>k. mem hw (addr + of_nat k)) [0..<n])
           [i := flip_bit b (map (\<lambda>k. mem hw (addr + of_nat k)) [0..<n] ! i)])"
    by simp
next
  fix k
  assume "k < length (map (\<lambda>k. mem (flip_stored_bit (addr + of_nat i) b hw) (addr + of_nat k)) [0..<n])"
  then have k: "k < n" by simp
  have "(of_nat k :: u32) = of_nat i \<longleftrightarrow> k = i"
    using of_nat_u32_eq [of k i] k assms by auto
  then show "map (\<lambda>k. mem (flip_stored_bit (addr + of_nat i) b hw) (addr + of_nat k)) [0..<n] ! k =
        (map (\<lambda>k. mem hw (addr + of_nat k)) [0..<n])
           [i := flip_bit b (map (\<lambda>k. mem hw (addr + of_nat k)) [0..<n] ! i)] ! k"
    using k assms(1) by (simp add: flip_stored_bit_def nth_list_update)
qed

text \<open>
  C4. For a store whose region holds a valid record (a read succeeds), flipping any one
  bit of any stored payload byte or stored checksum byte, without going through
  \<^verbatim>\<open>write\<close>, makes the read return false (and leave the caller's variable untouched); a
  read does not change the controller, so every later read fails as well.
\<close>

theorem corruption_detected:
  assumes al: "0 < align_of T" and sz: "sizeof_StorageFormat T < 2 ^ 32"
    and ok: "FlashStorageClass_read T (FlashStorageClass_ctor T hw0 addr vh) old pad hw = (True, v)"
    and pos: "(offsetof_data T \<le> i \<and> i < offsetof_data T + size_of T) \<or>
              (offsetof_checksum T \<le> i \<and> i < offsetof_checksum T + 2)"
    and b: "b < 8"
  shows "FlashStorageClass_read T (FlashStorageClass_ctor T hw0 addr vh) old' pad'
           (flip_stored_bit (addr + of_nat i) b hw) = (False, old')"
proof -
  let ?fs = "FlashStorageClass_ctor T hw0 addr vh"
  let ?fc = "flash ?fs"
  let ?n = "sizeof_StorageFormat T"
  let ?hw' = "flip_stored_bit (addr + of_nat i) b hw"
  let ?od = "offsetof_data T" and ?oc = "offsetof_checksum T" and ?s = "size_of T"
  note lo = layout_order [OF al]
  have un: "unat (flash_size ?fc) = ?n"
    using sz by (simp add: ctor_fields unat_of_nat)
  from ok obtain bs where r: "FlashClass_read_all ?fc hw = Some bs"
    and ck: "pkg_checksum T bs = calcChecksum (pkg_data T bs) ?s"
    by (auto simp: FlashStorageClass_read_def Let_def split: option.splits if_splits)
  note rb = read_all_bytes [OF r]
  have bs: "bs = map (\<lambda>k. mem hw (addr + of_nat k)) [0..<?n]"
    using rb(1) un by (simp add: ctor_fields)
  have len: "length bs = ?n" by (simp add: bs)
  have i: "i < ?n" using pos lo by linarith
  let ?bs' = "bs[i := flip_bit b (bs ! i)]"
  have r': "FlashClass_read_all ?fc ?hw' = Some ?bs'"
    using read_all_ok [OF rb(2), of ?hw'] flipped_bytes [OF i, of addr b hw] sz un
    by (simp add: ctor_fields bs)
  have ne: "flip_bit b (bs ! i) \<noteq> bs ! i" using b by (rule flip_bit_changes)
  have bad: "pkg_checksum T ?bs' \<noteq> calcChecksum (pkg_data T ?bs') ?s"
    using pos
  proof
    assume p: "?od \<le> i \<and> i < ?od + ?s"
    have d: "pkg_data T ?bs' = (pkg_data T bs)[i - ?od := flip_bit b (bs ! i)]"
      using p by (simp add: pkg_data_def drop_update_swap take_update_swap)
    have ld: "length (pkg_data T bs) = ?s"
      using lo len by (simp add: pkg_data_def)
    have io: "i - ?od < ?s" "?od + (i - ?od) = i" "?od \<le> length bs"
      using p lo len by linarith+
    have nth: "pkg_data T bs ! (i - ?od) = bs ! i"
      by (simp add: pkg_data_def io)
    have "calcChecksum (pkg_data T ?bs') ?s \<noteq> calcChecksum (pkg_data T bs) ?s"
      unfolding d using calcChecksum_change [of "i - ?od" "pkg_data T bs" "flip_bit b (bs ! i)"]
        ne io(1) by (simp add: ld nth)
    moreover have "pkg_checksum T ?bs' = pkg_checksum T bs"
      using p lo by (simp add: pkg_checksum_def load_u16_def)
    ultimately show ?thesis using ck by simp
  next
    assume p: "?oc \<le> i \<and> i < ?oc + 2"
    have "?s \<le> i - ?od" "?od \<le> i" using p lo by linarith+
    then have d: "pkg_data T ?bs' = pkg_data T bs"
      by (simp add: pkg_data_def drop_update_swap)
    have "pkg_checksum T ?bs' \<noteq> pkg_checksum T bs"
    proof
      assume "pkg_checksum T ?bs' = pkg_checksum T bs"
      then have "load_u16 ?bs' ?oc = load_u16 bs ?oc" by (simp add: pkg_checksum_def)
      from load_u16_inj [OF this] have "?bs' ! i = bs ! i"
        using p by (cases "i = ?oc") (auto simp: less_Suc_eq numeral_2_eq_2)
      with i len ne show False by simp
    qed
    with d ck show ?thesis by simp
  qed
  from r' bad show ?thesis
    by (simp add: FlashStorageClass_read_def Let_def)
qed

lemma stored_hw_read:
  "FlashStorageClass_read uint16_T store_a old pad stored_hw = (True, [0x34, 0x12])"
  using typed_read_stored [OF uint16_T_ok(2,1), of store_a stored_hw old pad] stored_hw_record
  by (simp add: store_a_def ctor_fields uint16_T_copy)

theorem corruption_detected_witness:
  "0 < align_of uint16_T \<and> sizeof_StorageFormat uint16_T < 2 ^ 32 \<and>
   FlashStorageClass_read uint16_T store_a [0, 0] zero_bytes stored_hw = (True, [0x34, 0x12]) \<and>
   (offsetof_data uint16_T \<le> 2 \<and> 2 < offsetof_data uint16_T + size_of uint16_T) \<and>
   (offsetof_checksum uint16_T \<le> 5 \<and> 5 < offsetof_checksum uint16_T + 2) \<and>
   (0 :: nat) < 8 \<and> (7 :: nat) < 8 \<and>
   FlashStorageClass_read uint16_T store_a [0, 0] zero_bytes (flip_stored_bit (0x2000 + of_nat 2) 0 stored_hw)
     = (False, [0, 0]) \<and>
   FlashStorageClass_read uint16_T store_a [0, 0] zero_bytes (flip_stored_bit (0x2000 + of_nat 5) 7 stored_hw)
     = (False, [0, 0])"
proof -
  have a: "0 < align_of uint16_T" "sizeof_StorageFormat uint16_T < 2 ^ 32"
    by (simp_all add: uint16_T_layout)
  have r: "FlashStorageClass_read uint16_T
             (FlashStorageClass_ctor uint16_T erased_hw 0x2000 (hash_variable ''a'' 2))
             [0, 0] zero_bytes stored_hw = (True, [0x34, 0x12])"
    using stored_hw_read [of "[0, 0]" zero_bytes] by (simp add: store_a_def)
  have p1: "(offsetof_data uint16_T \<le> 2 \<and> 2 < offsetof_data uint16_T + size_of uint16_T) \<or>
            (offsetof_checksum uint16_T \<le> 2 \<and> 2 < offsetof_checksum uint16_T + 2)"
    and p2: "(offsetof_data uint16_T \<le> 5 \<and> 5 < offsetof_data uint16_T + size_of uint16_T) \<or>
            (offsetof_checksum uint16_T \<le> 5 \<and> 5 < offsetof_checksum uint16_T + 2)"
    by (simp_all add: uint16_T_layout)
  have b: "(0 :: nat) < 8" "(7 :: nat) < 8" by simp_all
  from corruption_detected [OF a r p1 b(1), of "[0, 0]" zero_bytes]
    corruption_detected [OF a r p2 b(2), of "[0, 0]" zero_bytes] a r
  show ?thesis
    unfolding store_a_def [symmetric] by (simp add: uint16_T_layout del: of_nat_numeral)
qed

section \<open>Identity tags\<close>

lemma hash_values:
  "hash_string ''a'' 0x5A5A = 0x11F4" "hash_string ''alt'' 0x5A5A = 0x11F4"
  "hash_string ''b'' 0x5A5A = 0x11F5"
  by (simp_all add: hash_combine_def)

lemma xor_left_cancel_u16: "h XOR a = h XOR b \<Longrightarrow> a = (b :: u16)"
proof -
  assume "h XOR a = h XOR b"
  then have "h XOR (h XOR a) = h XOR (h XOR b)" by simp
  then show ?thesis by (simp add: xor.assoc [symmetric])
qed

lemma hash_combine_inj: "hash_combine h v = hash_combine h v' \<Longrightarrow> v = v'"
  by (auto simp: hash_combine_def dest!: xor_left_cancel_u16)

lemma stored_prefix:
  assumes "FlashClass_read_all fc hw = Some bs" "FlashClass_read_all fc' hw = Some bs'"
    and "flash_address fc' = flash_address fc"
    and "2 \<le> length bs" "2 \<le> length bs'"
  shows "load_u16 bs' 0 = load_u16 bs 0"
proof -
  note a = read_all_bytes(1) [OF assms(1)] and b = read_all_bytes(1) [OF assms(2)]
  from assms(4) a have "1 < unat (flash_size fc)" by simp
  then have "bs ! 0 = mem hw (flash_address fc + of_nat 0)"
    "bs ! 1 = mem hw (flash_address fc + of_nat 1)"
    unfolding a by simp_all
  moreover from assms(5) b have "1 < unat (flash_size fc')" by simp
  then have "bs' ! 0 = mem hw (flash_address fc' + of_nat 0)"
    "bs' ! 1 = mem hw (flash_address fc' + of_nat 1)"
    unfolding b by simp_all
  ultimately show ?thesis by (simp add: load_u16_def assms(3))
qed

text \<open>
  C9 (amended). The identity tag is a 16-bit hash, so different names can share a tag.
  What holds: for one name, two sizes that differ modulo \<open>2^16\<close> (any two different sizes
  below 64 KiB) give different tags; and whenever the tags of two stores over the same
  raw bytes differ, a read through store B after store A has written returns false and
  leaves the caller's variable untouched.
\<close>

theorem identity_isolation:
  "((ucast (s1 :: u32) :: u16) \<noteq> ucast (s2 :: u32)
      \<longrightarrow> hash_variable name s1 \<noteq> hash_variable name s2) \<and>
   (length v = size_of TA \<and> 0 < align_of TA \<and> sizeof_StorageFormat TA + 3 < 2 ^ 32 \<and>
    0 < align_of TB \<and> sizeof_StorageFormat TB < 2 ^ 32 \<and> vhA \<noteq> vhB \<and>
    FlashStorageClass_write TA (FlashStorageClass_ctor TA hwA addr vhA) v pad stack hw
      = Some (True, hw')
    \<longrightarrow> FlashStorageClass_read TB (FlashStorageClass_ctor TB hwB addr vhB) old pad' hw'
          = (False, old))"
proof (rule conjI; rule impI)
  assume "(ucast s1 :: u16) \<noteq> ucast s2"
  then show "hash_variable name s1 \<noteq> hash_variable name s2"
    using hash_combine_inj by (auto simp: hash_variable_def)
next
  let ?fsA = "FlashStorageClass_ctor TA hwA addr vhA"
  let ?fsB = "FlashStorageClass_ctor TB hwB addr vhB"
  let ?pkg = "StorageFormat_bytes TA vhA (copy_T TA pad v) (calcChecksum (copy_T TA pad v) (size_of TA))"
  assume a: "length v = size_of TA \<and> 0 < align_of TA \<and> sizeof_StorageFormat TA + 3 < 2 ^ 32 \<and>
    0 < align_of TB \<and> sizeof_StorageFormat TB < 2 ^ 32 \<and> vhA \<noteq> vhB \<and>
    FlashStorageClass_write TA ?fsA v pad stack hw = Some (True, hw')"
  then have st: "FlashClass_read_all (flash ?fsA) hw' = Some ?pkg"
    using typed_write_stored by blast
  have lp: "length ?pkg = sizeof_StorageFormat TA"
    using a by (simp add: length_StorageFormat_bytes length_copy_T)
  have idA: "load_u16 ?pkg 0 = vhA"
    using StorageFormat_members(1) [of TA "copy_T TA pad v" vhA] a
    by (simp add: pkg_id_hash_def length_copy_T)
  show "FlashStorageClass_read TB ?fsB old pad' hw' = (False, old)"
  proof (cases "FlashClass_read_all (flash ?fsB) hw'")
    case None
    then show ?thesis by (simp add: FlashStorageClass_read_def)
  next
    case (Some bs)
    from read_all_bytes(1) [OF Some] a have "length bs = sizeof_StorageFormat TB"
      by (simp add: ctor_fields unat_of_nat)
    with layout_order [of TB] a have "2 \<le> length bs" by simp
    moreover from lp layout_order [of TA] a have "2 \<le> length ?pkg" by simp
    ultimately have "load_u16 bs 0 = load_u16 ?pkg 0"
      using stored_prefix [OF st Some] by (simp add: ctor_fields)
    with idA a have "pkg_id_hash bs \<noteq> vhB" by (simp add: pkg_id_hash_def)
    with Some show ?thesis by (simp add: FlashStorageClass_read_def ctor_fields)
  qed
qed

text \<open>
  C9 as stated fails: the names \<open>a\<close> and \<open>alt\<close> have the same tag for the same type, so the
  store named \<open>alt\<close> accepts the record that the store named \<open>a\<close> wrote; and the sizes 2
  and 65538 give the same tag for one name.
\<close>

theorem identity_isolation_counterexample:
  "''a'' \<noteq> ''alt'' \<and> hash_variable ''a'' 2 = hash_variable ''alt'' 2 \<and>
   FlashStorageClass_write uint16_T
     (FlashStorageClass_ctor uint16_T erased_hw 0x2000 (hash_variable ''a'' 2))
     [0x34, 0x12] zero_bytes zero_bytes erased_hw = Some (True, stored_hw) \<and>
   FlashStorageClass_read uint16_T
     (FlashStorageClass_ctor uint16_T erased_hw 0x2000 (hash_variable ''alt'' 2))
     [0, 0] zero_bytes stored_hw = (True, [0x34, 0x12]) \<and>
   hash_variable ''a'' 2 = hash_variable ''a'' 65538"
proof -
  have h: "hash_variable ''a'' 2 = hash_variable ''alt'' 2"
    by (simp only: hash_variable_def hash_values)
  have "hash_variable ''a'' 2 = hash_variable ''a'' 65538"
    by (simp add: hash_variable_def hash_combine_def)
  with h store_a_written stored_hw_read [of "[0, 0]" zero_bytes] show ?thesis
    by (simp add: store_a_def)
qed

theorem identity_isolation_witness:
  "(ucast (2 :: u32) :: u16) \<noteq> ucast (4 :: u32) \<and>
   hash_variable ''a'' 2 \<noteq> hash_variable ''a'' 4 \<and>
   length [0x34, 0x12 :: u8] = size_of uint16_T \<and> 0 < align_of uint16_T \<and>
   sizeof_StorageFormat uint16_T + 3 < 2 ^ 32 \<and>
   0 < align_of uint32_T \<and> sizeof_StorageFormat uint32_T < 2 ^ 32 \<and>
   hash_variable ''a'' 2 \<noteq> hash_variable ''b'' 4 \<and>
   FlashStorageClass_write uint16_T
     (FlashStorageClass_ctor uint16_T erased_hw 0x2000 (hash_variable ''a'' 2))
     [0x34, 0x12] zero_bytes zero_bytes erased_hw = Some (True, stored_hw) \<and>
   FlashStorageClass_read uint32_T
     (FlashStorageClass_ctor uint32_T erased_hw 0x2000 (hash_variable ''b'' 4))
     [0, 0, 0, 0] zero_bytes stored_hw = (False, [0, 0, 0, 0])"
proof -
  have t: "0 < align_of uint32_T" "sizeof_StorageFormat uint32_T < 2 ^ 32"
    by (simp_all add: uint32_T_def offsetof_data_def offsetof_checksum_def
        sizeof_StorageFormat_def align_up_def)
  have h: "hash_variable ''a'' 2 \<noteq> hash_variable ''b'' 4"
    by (simp add: hash_variable_def hash_values hash_combine_def)
  have u: "(ucast (2 :: u32) :: u16) \<noteq> ucast (4 :: u32)" by simp
  from identity_isolation [of 2 4 "''a''" "[0x34, 0x12]" uint16_T uint32_T
      "hash_variable ''a'' 2" "hash_variable ''b'' 4" erased_hw "0x2000" zero_bytes zero_bytes
      erased_hw stored_hw erased_hw "[0, 0, 0, 0]" zero_bytes]
    uint16_T_ok t h u store_a_written
  show ?thesis by (simp add: store_a_def)
qed

section \<open>Record layout and the value form of read\<close>

lemma align_up_exact: "a dvd n \<Longrightarrow> 0 < a \<Longrightarrow> align_up n a = n"
proof -
  assume "a dvd n" and a: "0 < a"
  then obtain k where k: "n = k * a" by (auto elim: dvdE simp: mult.commute)
  have "a - 1 < a" using a by simp
  then have z: "(a - 1) div a = 0" by simp
  have "k * a + a - 1 = k * a + (a - 1)" using a by linarith
  moreover have "(k * a + (a - 1)) div a = k + (a - 1) div a"
    using a by (simp only: div_mult_self3)
  ultimately have "(k * a + a - 1) div a = k" using z by simp
  then show ?thesis by (simp only: align_up_def k)
qed

lemma align_up_dvd: "a dvd align_up n a"
  by (simp add: align_up_def)

lemma align_up_least:
  assumes "0 < a" "n \<le> m" "a dvd m"
  shows "align_up n a \<le> m"
proof -
  from assms(3) obtain k where "m = a * k" ..
  then have k: "m = k * a" by (simp add: mult.commute)
  have "n + a - 1 < (k + 1) * a" using assms(1,2) k by simp
  then have "(n + a - 1) div a < k + 1"
    using assms(1) by (simp add: div_less_iff_less_mult)
  then have "(n + a - 1) div a \<le> k" by simp
  then have "(n + a - 1) div a * a \<le> k * a" by (rule mult_le_mono1)
  then show ?thesis by (simp add: align_up_def k)
qed

lemma nth_replicate_middle:
  assumes "length xs \<le> i" and "i < length xs + n"
  shows "(xs @ replicate n z @ ys) ! i = z"
proof -
  from assms have "i - length xs < n" by arith
  with assms(1) show ?thesis by (simp add: nth_append)
qed

lemma StorageFormat_padding_zero:
  assumes "0 < align_of T" and "length v = size_of T"
    and "i < sizeof_StorageFormat T" and "2 \<le> i"
    and "\<not> (offsetof_data T \<le> i \<and> i < offsetof_data T + size_of T)"
    and "\<not> (offsetof_checksum T \<le> i \<and> i < offsetof_checksum T + 2)"
  shows "StorageFormat_bytes T h v c ! i = 0"
proof -
  note lo = layout_order [OF assms(1)]
  have l2: "length (store_u16 h) = 2" "length (store_u16 c) = 2"
    by (simp_all add: store_u16_def)
  let ?r1 = "replicate (offsetof_data T - 2) (0 :: u8)"
  let ?r2 = "replicate (offsetof_checksum T - (offsetof_data T + size_of T)) (0 :: u8)"
  let ?r3 = "replicate (sizeof_StorageFormat T - (offsetof_checksum T + 2)) (0 :: u8)"
  show ?thesis
  proof (cases "i < offsetof_data T")
    case True
    have "length (store_u16 h) \<le> i" using assms(4) l2 by simp
    moreover have "i < length (store_u16 h) + (offsetof_data T - 2)"
      using True lo l2 by simp
    ultimately have "(store_u16 h @ ?r1 @ (v @ ?r2 @ store_u16 c @ ?r3)) ! i = 0"
      by (rule nth_replicate_middle)
    then show ?thesis by (simp only: StorageFormat_bytes_def append_assoc)
  next
    case False
    with assms(5) have ge: "offsetof_data T + size_of T \<le> i" by simp
    show ?thesis
    proof (cases "i < offsetof_checksum T")
      case True
      let ?xs = "store_u16 h @ ?r1 @ v"
      have lx: "length ?xs = offsetof_data T + size_of T"
        using lo l2 assms(2) by simp
      have "length ?xs \<le> i" using ge lx by simp
      moreover have "i < length ?xs + (offsetof_checksum T - (offsetof_data T + size_of T))"
        using True lo lx by simp
      ultimately have "(?xs @ ?r2 @ (store_u16 c @ ?r3)) ! i = 0"
        by (rule nth_replicate_middle)
      then show ?thesis by (simp only: StorageFormat_bytes_def append_assoc)
    next
      case False
      with assms(6) have g2: "offsetof_checksum T + 2 \<le> i" by simp
      let ?xs = "store_u16 h @ ?r1 @ v @ ?r2 @ store_u16 c"
      have lx: "length ?xs = offsetof_checksum T + 2"
        using lo l2 assms(2) by simp
      have "length ?xs \<le> i" using g2 lx by simp
      moreover have "i < length ?xs + (sizeof_StorageFormat T - (offsetof_checksum T + 2))"
        using assms(3) lo lx by simp
      ultimately have "(?xs @ ?r3 @ []) ! i = 0"
        by (rule nth_replicate_middle)
      then show ?thesis by (simp only: StorageFormat_bytes_def append_assoc append_Nil2)
    qed
  qed
qed

text \<open>
  C7 (amended). The on-media record is the byte image of the unpacked struct
  \<^verbatim>\<open>StorageFormat\<close>, and the region is declared with its size: the 16-bit tag lies at
  offsets 0..2, the payload (the byte image of \<^verbatim>\<open>T\<close>) at the first offset from 2 on that is
  a multiple of \<^verbatim>\<open>alignof(T)\<close>, the 16-bit checksum at the first even offset at or after
  the end of the payload, and the record ends at the first multiple of the larger of 2
  and \<^verbatim>\<open>alignof(T)\<close> at or after the end of the checksum; every other byte of the record is
  padding and is zero. When \<^verbatim>\<open>alignof(T)\<close> is 1 or 2 and \<^verbatim>\<open>sizeof(T)\<close> is even, the record has
  exactly \<^verbatim>\<open>sizeof(T) + 4\<close> bytes, with the payload at 2 and the checksum at
  \<^verbatim>\<open>2 + sizeof(T)\<close>.
\<close>

theorem record_layout:
  assumes "0 < align_of T" and "length v = size_of T"
  shows "length (StorageFormat_bytes T h v c) = sizeof_StorageFormat T \<and>
         flash_size (flash (FlashStorageClass_ctor T hw0 addr h)) = of_nat (sizeof_StorageFormat T) \<and>
         take 2 (StorageFormat_bytes T h v c) = store_u16 h \<and>
         take (size_of T) (drop (offsetof_data T) (StorageFormat_bytes T h v c)) = v \<and>
         take 2 (drop (offsetof_checksum T) (StorageFormat_bytes T h v c)) = store_u16 c \<and>
         2 \<le> offsetof_data T \<and> offsetof_data T + size_of T \<le> offsetof_checksum T \<and>
         offsetof_checksum T + 2 \<le> sizeof_StorageFormat T \<and>
         (align_of T dvd 2 \<and> even (size_of T) \<longrightarrow>
            offsetof_data T = 2 \<and> offsetof_checksum T = 2 + size_of T \<and>
            sizeof_StorageFormat T = size_of T + 4) \<and>
         align_of T dvd offsetof_data T \<and>
         (\<forall>m. 2 \<le> m \<and> align_of T dvd m \<longrightarrow> offsetof_data T \<le> m) \<and>
         even (offsetof_checksum T) \<and>
         (\<forall>m. offsetof_data T + size_of T \<le> m \<and> even m \<longrightarrow> offsetof_checksum T \<le> m) \<and>
         max 2 (align_of T) dvd sizeof_StorageFormat T \<and>
         (\<forall>m. offsetof_checksum T + 2 \<le> m \<and> max 2 (align_of T) dvd m
              \<longrightarrow> sizeof_StorageFormat T \<le> m) \<and>
         (\<forall>i < sizeof_StorageFormat T.
            2 \<le> i \<and> \<not> (offsetof_data T \<le> i \<and> i < offsetof_data T + size_of T) \<and>
            \<not> (offsetof_checksum T \<le> i \<and> i < offsetof_checksum T + 2)
            \<longrightarrow> StorageFormat_bytes T h v c ! i = 0)"
proof -
  note lo = layout_order [OF assms(1)]
  have l: "length (StorageFormat_bytes T h v c) = sizeof_StorageFormat T"
    using assms by (rule length_StorageFormat_bytes)
  have t: "take 2 (StorageFormat_bytes T h v c) = store_u16 h"
    by (simp add: StorageFormat_bytes_def store_u16_def)
  have d: "take (size_of T) (drop (offsetof_data T) (StorageFormat_bytes T h v c)) = v"
    using StorageFormat_members(2) [OF assms] by (simp add: pkg_data_def)
  let ?pre = "store_u16 h @ replicate (offsetof_data T - 2) 0 @ v @
      replicate (offsetof_checksum T - (offsetof_data T + size_of T)) 0"
  have "length ?pre = offsetof_checksum T"
    using lo assms(2) by (simp add: store_u16_def)
  then have "take (length (store_u16 c)) (drop (offsetof_checksum T)
      (?pre @ store_u16 c @ replicate (sizeof_StorageFormat T - (offsetof_checksum T + 2)) 0))
      = store_u16 c"
    by (rule take_drop_middle)
  moreover have "length (store_u16 c) = 2" by (simp add: store_u16_def)
  ultimately
  have k: "take 2 (drop (offsetof_checksum T) (StorageFormat_bytes T h v c)) = store_u16 c"
    by (simp only: StorageFormat_bytes_def append_assoc)
  have p: "offsetof_data T = 2 \<and> offsetof_checksum T = 2 + size_of T \<and>
            sizeof_StorageFormat T = size_of T + 4"
    if "align_of T dvd 2 \<and> even (size_of T)"
  proof -
    from that assms(1) have od: "offsetof_data T = 2"
      by (simp add: offsetof_data_def align_up_exact)
    from that have oc: "offsetof_checksum T = 2 + size_of T"
      by (simp add: offsetof_checksum_def od align_up_exact)
    from that assms(1) have "align_of T \<le> 2" by (simp add: dvd_imp_le)
    then have "max 2 (align_of T) = 2" by simp
    with that have "sizeof_StorageFormat T = size_of T + 4"
      by (simp add: sizeof_StorageFormat_def oc align_up_exact)
    with od oc show ?thesis by simp
  qed
  have m0: "0 < max 2 (align_of T)" by simp
  have first: "align_of T dvd offsetof_data T" "even (offsetof_checksum T)"
    "max 2 (align_of T) dvd sizeof_StorageFormat T"
    unfolding offsetof_data_def offsetof_checksum_def sizeof_StorageFormat_def
    by (rule align_up_dvd)+
  have least: "offsetof_data T \<le> m" if "2 \<le> m \<and> align_of T dvd m" for m
    using that assms(1) unfolding offsetof_data_def by (simp add: align_up_least)
  have least_c: "offsetof_checksum T \<le> m" if "offsetof_data T + size_of T \<le> m \<and> even m" for m
    using that unfolding offsetof_checksum_def by (simp add: align_up_least)
  have least_s: "sizeof_StorageFormat T \<le> m"
    if "offsetof_checksum T + 2 \<le> m \<and> max 2 (align_of T) dvd m" for m
    using that m0 unfolding sizeof_StorageFormat_def by (simp add: align_up_least)
  have z: "StorageFormat_bytes T h v c ! i = 0"
    if "i < sizeof_StorageFormat T"
      "2 \<le> i \<and> \<not> (offsetof_data T \<le> i \<and> i < offsetof_data T + size_of T) \<and>
       \<not> (offsetof_checksum T \<le> i \<and> i < offsetof_checksum T + 2)" for i
    using StorageFormat_padding_zero [OF assms that(1)] that(2) by blast
  have c: "flash_size (flash (FlashStorageClass_ctor T hw0 addr h))
             = of_nat (sizeof_StorageFormat T)"
    by (simp add: ctor_fields)
  from l c t d k lo p first least least_c least_s z show ?thesis by blast
qed

text \<open>
  C7 as stated fails for a type with 4-byte alignment: the record of a \<^verbatim>\<open>uint32_t\<close> has 12
  bytes, not 8, and its payload starts at offset 4.
\<close>

theorem record_layout_counterexample:
  "sizeof_StorageFormat uint32_T \<noteq> size_of uint32_T + 4 \<and> offsetof_data uint32_T \<noteq> 2 \<and>
   sizeof_StorageFormat uint32_T = 12 \<and> offsetof_data uint32_T = 4 \<and>
   offsetof_checksum uint32_T = 8"
  by (simp add: uint32_T_def offsetof_data_def offsetof_checksum_def
      sizeof_StorageFormat_def align_up_def)

lemma uint32_T_layout:
  "size_of uint32_T = 4" "align_of uint32_T = 4" "offsetof_data uint32_T = 4"
  "offsetof_checksum uint32_T = 8" "sizeof_StorageFormat uint32_T = 12"
  by (simp_all add: uint32_T_def offsetof_data_def offsetof_checksum_def
      sizeof_StorageFormat_def align_up_def)

theorem record_layout_witness:
  "0 < align_of uint16_T \<and> length [0x34, 0x12 :: u8] = size_of uint16_T \<and>
   align_of uint16_T dvd 2 \<and> even (size_of uint16_T) \<and>
   length (StorageFormat_bytes uint16_T 0xBEEF [0x34, 0x12] 0xCAFE) = 6 \<and>
   offsetof_data uint16_T = 2 \<and> offsetof_checksum uint16_T = 2 + size_of uint16_T \<and>
   sizeof_StorageFormat uint16_T = size_of uint16_T + 4 \<and>
   0 < align_of uint32_T \<and> length [0x78, 0x56, 0x34, 0x12 :: u8] = size_of uint32_T \<and>
   (2 :: nat) \<le> 4 \<and> align_of uint32_T dvd 4 \<and> offsetof_data uint32_T \<le> 4 \<and>
   offsetof_data uint32_T + size_of uint32_T \<le> 8 \<and> even (8 :: nat) \<and>
   offsetof_checksum uint32_T \<le> 8 \<and>
   offsetof_checksum uint32_T + 2 \<le> 12 \<and> max 2 (align_of uint32_T) dvd 12 \<and>
   sizeof_StorageFormat uint32_T \<le> 12 \<and>
   (3 :: nat) < sizeof_StorageFormat uint32_T \<and> (2 :: nat) \<le> 3 \<and>
   \<not> (offsetof_data uint32_T \<le> 3 \<and> 3 < offsetof_data uint32_T + size_of uint32_T) \<and>
   \<not> (offsetof_checksum uint32_T \<le> 3 \<and> 3 < offsetof_checksum uint32_T + 2) \<and>
   StorageFormat_bytes uint32_T 0xBEEF [0x78, 0x56, 0x34, 0x12] 0xCAFE ! 3 = 0"
proof -
  have a: "0 < align_of uint32_T" "length [0x78, 0x56, 0x34, 0x12 :: u8] = size_of uint32_T"
    by (simp_all add: uint32_T_layout)
  note r16 = record_layout [OF uint16_T_ok(2,1), of "0xBEEF" "0xCAFE" erased_hw "0x2000"]
  note r32 = record_layout [OF a, of "0xBEEF" "0xCAFE" erased_hw "0x2000"]
  have h16: "align_of uint16_T dvd 2 \<and> even (size_of uint16_T)"
    by (simp add: uint16_T_layout)
  have h32: "(2 :: nat) \<le> 4 \<and> align_of uint32_T dvd 4"
    "offsetof_data uint32_T + size_of uint32_T \<le> 8 \<and> even (8 :: nat)"
    "offsetof_checksum uint32_T + 2 \<le> 12 \<and> max 2 (align_of uint32_T) dvd 12"
    "(3 :: nat) < sizeof_StorageFormat uint32_T"
    "(2 :: nat) \<le> 3 \<and>
     \<not> (offsetof_data uint32_T \<le> 3 \<and> 3 < offsetof_data uint32_T + size_of uint32_T) \<and>
     \<not> (offsetof_checksum uint32_T \<le> 3 \<and> 3 < offsetof_checksum uint32_T + 2)"
    by (simp_all add: uint32_T_layout)
  from r16 h16 have c16: "offsetof_data uint16_T = 2"
    "offsetof_checksum uint16_T = 2 + size_of uint16_T"
    "sizeof_StorageFormat uint16_T = size_of uint16_T + 4"
    "length (StorageFormat_bytes uint16_T 0xBEEF [0x34, 0x12] 0xCAFE) = sizeof_StorageFormat uint16_T"
    by blast+
  from r32 h32 have c32: "offsetof_data uint32_T \<le> 4" "offsetof_checksum uint32_T \<le> 8"
    "sizeof_StorageFormat uint32_T \<le> 12"
    "StorageFormat_bytes uint32_T 0xBEEF [0x78, 0x56, 0x34, 0x12] 0xCAFE ! 3 = 0"
    by blast+
  from c16 have "length (StorageFormat_bytes uint16_T 0xBEEF [0x34, 0x12] 0xCAFE) = 6"
    by (simp add: uint16_T_layout)
  with c16 c32 h16 h32 a uint16_T_ok show ?thesis by blast
qed

text \<open>
  C6. The form \<^verbatim>\<open>T read()\<close> declares \<^verbatim>\<open>T data;\<close> without an initialiser. For a scalar type
  this leaves the variable as the memory was; when validation fails (here: erased flash,
  whose tag does not match) the call returns those bytes, not the zero value of \<^verbatim>\<open>T\<close>.
\<close>

theorem read0_uninitialised:
  "default_init uint32_T = None \<and>
   fst (FlashStorageClass_read uint32_T
     (FlashStorageClass_ctor uint32_T erased_hw 0x2000 (hash_variable ''b'' 4))
     [0xEF, 0xBE, 0xAD, 0xDE] zero_bytes erased_hw) = False \<and>
   FlashStorageClass_read0 uint32_T
     (FlashStorageClass_ctor uint32_T erased_hw 0x2000 (hash_variable ''b'' 4))
     [0xEF, 0xBE, 0xAD, 0xDE] zero_bytes zero_bytes erased_hw = [0xEF, 0xBE, 0xAD, 0xDE] \<and>
   [0xEF, 0xBE, 0xAD, 0xDE] \<noteq> [0, 0, 0, 0 :: u8]"
proof -
  let ?fs = "FlashStorageClass_ctor uint32_T erased_hw 0x2000 (hash_variable ''b'' 4)"
  have n: "sizeof_StorageFormat uint32_T = 12"
    by (simp add: uint32_T_def offsetof_data_def offsetof_checksum_def
      sizeof_StorageFormat_def align_up_def)
  have b: "isWithinBounds (flash ?fs) (flash_address (flash ?fs)) (flash_size (flash ?fs))"
    by (simp add: isWithinBounds_def ctor_fields n)
  have "pkg_id_hash (map (\<lambda>i. mem erased_hw (0x2000 + of_nat i)) [0..<12]) = 0xFFFF"
    by (simp add: pkg_id_hash_def load_u16_def erased_hw_def)
  moreover have "hash_variable ''b'' 4 \<noteq> 0xFFFF"
    by (simp add: hash_variable_def hash_values hash_combine_def)
  ultimately have "FlashStorageClass_read uint32_T ?fs old pad erased_hw = (False, old)" for old pad
    using read_all_ok [OF b, of erased_hw]
    by (simp add: FlashStorageClass_read_def ctor_fields n)
  then show ?thesis
    by (simp add: FlashStorageClass_read0_def copy_T_def uint32_T_def upt_conv_Cons)
qed

end
